theory Spec2Isabelle
  imports Complex_Main "HOL-Library.Log_Nat"
begin

unbundle bit_operations_syntax

section \<open>Data model\<close>

text \<open>
  The program is the Python module \<open>geohash_hilbert/_hilbert.py\<close>, read as Python 3
  (\<open>math.floor\<close> returns an integer). The module uses the compiled functions of
  \<open>_hilbert_cython\<close> for the curve transform when that extension can be imported; the
  extension is not among the sources, and the pure Python definitions of \<open>_xy2hash\<close>,
  \<open>_hash2xy\<close> and \<open>_rotate\<close> are the ones modelled here. Python integers are
  unbounded and are modelled by \<open>int\<close>; \<open>&\<close>, \<open>^\<close>, \<open>>>\<close> and \<open><<\<close> are the
  bit operations of \<open>int\<close> (two's complement, as in Python). The source's variable
  \<open>dim\<close> is written \<open>dm\<close>, since \<open>dim\<close> is a constant of the library.

  A failing \<open>assert\<close> raises \<open>AssertionError\<close>; a shift by a negative count and
  \<open>math.floor\<close> of a NaN raise \<open>ValueError\<close>; the conversion of an integer that is too
  large for a float, a true division of integers whose quotient is too large, and
  \<open>math.floor\<close> of an infinity raise \<open>OverflowError\<close>; a division by zero raises
  \<open>ZeroDivisionError\<close>. A function that can raise returns \<open>error + 'a\<close>.
\<close>

datatype error = AssertionError | ValueError | OverflowError | ZeroDivisionError

definition and_then :: "error + 'a \<Rightarrow> ('a \<Rightarrow> error + 'b) \<Rightarrow> error + 'b" where
  \<comment> \<open>an exception ends the evaluation; a value goes on to the next statement\<close>
  "and_then r f = (case r of Inl e \<Rightarrow> Inl e | Inr v \<Rightarrow> f v)"

section \<open>Python floats\<close>

text \<open>
  A Python float is an IEEE-754 binary64 number: a finite double, an infinity or a NaN.
  A finite double is a real number \<open>m * 2^e\<close> with \<open>|m| < 2^53\<close>, \<open>e \<ge> -1074\<close> and
  magnitude below \<open>2^1024\<close>. The two zeros \<open>0.0\<close> and \<open>-0.0\<close> are one value here, as they
  are for \<open>==\<close>, and so are all NaNs.

  Every arithmetic operation returns the exact result rounded to the nearest double,
  ties to the even mantissa (\<open>round_double\<close>), and an infinity when the rounded result
  reaches \<open>2^1024\<close> (\<open>to_double\<close>). \<open>floor_log2 r\<close> is the \<open>k\<close> with
  \<open>2^k \<le> r < 2^(k+1)\<close> for \<open>r > 0\<close>; the doubles of that magnitude are the multiples of
  \<open>2^(k-52)\<close>, and of \<open>2^-1074\<close> in the subnormal range.

  The argument of \<open>Finite\<close> stands for a double: every operation below returns one, and
  a statement about every \<open>Finite r\<close> holds for the doubles in particular. A real \<open>r\<close>
  of magnitude below \<open>2^1024\<close> is a double when \<open>round_double r = r\<close>.
\<close>

definition floor_log2 :: "real \<Rightarrow> int" where
  "floor_log2 r = (if 1 \<le> r then bitlen \<lfloor>r\<rfloor> - 1 else - bitlen (\<lceil>1 / r\<rceil> - 1))"

definition round_half_even :: "real \<Rightarrow> int" where
  "round_half_even z =
     (let f = \<lfloor>z\<rfloor>; d = z - real_of_int f
      in if d < 1 / 2 then f else if 1 / 2 < d then f + 1 else if even f then f else f + 1)"

definition double_exp :: "real \<Rightarrow> int" where
  "double_exp r = max (floor_log2 \<bar>r\<bar> - 52) (- 1074)"

definition round_double :: "real \<Rightarrow> real" where
  "round_double r =
     (if r = 0 then 0
      else real_of_int (round_half_even (r / 2 powi double_exp r)) * 2 powi double_exp r)"

datatype pyfloat = Finite real | PInf | NInf | NaN

definition to_double :: "real \<Rightarrow> pyfloat" where
  "to_double r =
     (let d = round_double r
      in if 2 ^ 1024 \<le> \<bar>d\<bar> then (if 0 < d then PInf else NInf) else Finite d)"

fun float_pos :: "pyfloat \<Rightarrow> bool" where
  "float_pos (Finite a) = (0 < a)"
| "float_pos PInf = True"
| "float_pos NInf = False"
| "float_pos NaN = False"

fun float_neg :: "pyfloat \<Rightarrow> pyfloat" where
  "float_neg (Finite a) = Finite (- a)"
| "float_neg PInf = NInf"
| "float_neg NInf = PInf"
| "float_neg NaN = NaN"

text \<open>\<open>a + b\<close> on floats; the sum of the two infinities is a NaN.\<close>

fun float_add :: "pyfloat \<Rightarrow> pyfloat \<Rightarrow> pyfloat" where
  "float_add (Finite a) (Finite b) = to_double (a + b)"
| "float_add NaN y = NaN"
| "float_add x NaN = NaN"
| "float_add PInf NInf = NaN"
| "float_add NInf PInf = NaN"
| "float_add PInf y = PInf"
| "float_add x PInf = PInf"
| "float_add NInf y = NInf"
| "float_add x NInf = NInf"

definition float_sub :: "pyfloat \<Rightarrow> pyfloat \<Rightarrow> pyfloat" where
  "float_sub x y = float_add x (float_neg y)"

text \<open>\<open>a * b\<close> on floats; an infinity times zero is a NaN.\<close>

definition float_mul :: "pyfloat \<Rightarrow> pyfloat \<Rightarrow> pyfloat" where
  "float_mul x y =
     (case (x, y) of
        (Finite a, Finite b) \<Rightarrow> to_double (a * b)
      | _ \<Rightarrow> if x = NaN \<or> y = NaN \<or> x = Finite 0 \<or> y = Finite 0 then NaN
             else if float_pos x = float_pos y then PInf else NInf)"

text \<open>
  \<open>a / b\<close> on floats raises \<open>ZeroDivisionError\<close> for a zero divisor, whatever the
  dividend is.
\<close>

definition float_div :: "pyfloat \<Rightarrow> pyfloat \<Rightarrow> error + pyfloat" where
  "float_div x y =
     (if y = Finite 0 then Inl ZeroDivisionError
      else if x = NaN \<or> y = NaN then Inr NaN
      else (case (x, y) of
              (Finite a, Finite b) \<Rightarrow> Inr (to_double (a / b))
            | (Finite a, _) \<Rightarrow> Inr (Finite 0)
            | (_, Finite b) \<Rightarrow> Inr (if float_pos x = float_pos y then PInf else NInf)
            | _ \<Rightarrow> Inr NaN))"

text \<open>\<open>a <= b\<close> on floats; every comparison with a NaN is false.\<close>

fun float_le :: "pyfloat \<Rightarrow> pyfloat \<Rightarrow> bool" where
  "float_le (Finite a) (Finite b) = (a \<le> b)"
| "float_le NaN y = False"
| "float_le x NaN = False"
| "float_le NInf y = True"
| "float_le x PInf = True"
| "float_le x y = False"

text \<open>
  The conversion of an integer operand of a mixed operation (\<open>float * int\<close>), which
  rounds to the nearest double and raises when the integer is too large.
\<close>

definition int_to_float :: "int \<Rightarrow> error + pyfloat" where
  "int_to_float n =
     (case to_double (real_of_int n) of Finite d \<Rightarrow> Inr (Finite d) | _ \<Rightarrow> Inl OverflowError)"

text \<open>
  \<open>a / b\<close> on integers (true division): the exact quotient rounded to the nearest
  double.
\<close>

definition int_true_divide :: "int \<Rightarrow> int \<Rightarrow> error + pyfloat" where
  "int_true_divide a b =
     (if b = 0 then Inl ZeroDivisionError
      else (case to_double (real_of_int a / real_of_int b) of
              Finite d \<Rightarrow> Inr (Finite d)
            | _ \<Rightarrow> Inl OverflowError))"

fun math_floor :: "pyfloat \<Rightarrow> error + int" where
  "math_floor (Finite a) = Inr \<lfloor>a\<rfloor>"
| "math_floor NaN = Inl ValueError"
| "math_floor x = Inl OverflowError"

section \<open>Hilbert curve transform\<close>

text \<open>
  \<^verbatim>\<open>
  def _rotate(n, x, y, rx, ry):
      if ry == 0:
          if rx == 1:
              x = n - 1 - x
              y = n - 1 - y
          return y, x
      return x, y
  \<close>
  (named \<open>rotate_xy\<close> here: \<open>rotate\<close> is a list function of the library).
\<close>

definition rotate_xy :: "int \<Rightarrow> int \<Rightarrow> int \<Rightarrow> int \<Rightarrow> int \<Rightarrow> int \<times> int" where
  "rotate_xy n x y rx ry =
     (if ry = 0 then
        (let (x', y') = (if rx = 1 then (n - 1 - x, n - 1 - y) else (x, y))
         in (y', x'))
      else (x, y))"

text \<open>
  The loop of \<open>_xy2hash\<close>, with the loop variables \<open>d\<close>, \<open>lvl\<close>, \<open>x\<close>, \<open>y\<close> as arguments:
  \<^verbatim>\<open>
  while (lvl > 0):
      rx = int((x & lvl) > 0)
      ry = int((y & lvl) > 0)
      d += lvl * lvl * ((3 * rx) ^ ry)
      x, y = _rotate(lvl, x, y, rx, ry)
      lvl >>= 1
  return d
  \<close>
\<close>

definition quadrant_bit :: "int \<Rightarrow> int \<Rightarrow> int" where
  \<comment> \<open>\<open>int((x & lvl) > 0)\<close>\<close>
  "quadrant_bit x lvl = (if (x AND lvl) > 0 then 1 else 0)"

function xy2hash_loop :: "int \<Rightarrow> int \<Rightarrow> int \<Rightarrow> int \<Rightarrow> int" where
  "xy2hash_loop d lvl x y =
     (if lvl > 0 then
        (let rx = quadrant_bit x lvl;
             ry = quadrant_bit y lvl;
             d' = d + lvl * lvl * ((3 * rx) XOR ry);
             xy = rotate_xy lvl x y rx ry
         in xy2hash_loop d' (drop_bit 1 lvl) (fst xy) (snd xy))
      else d)"
  by pat_completeness auto
termination
  by (relation "measure (\<lambda>(d, lvl, x, y). nat lvl)") (auto simp: drop_bit_eq_div)

declare xy2hash_loop.simps [simp del]

definition xy2hash :: "int \<Rightarrow> int \<Rightarrow> int \<Rightarrow> int" where
  "xy2hash x y dm = xy2hash_loop 0 (drop_bit 1 dm) x y"

text \<open>
  The loop of \<open>_hash2xy\<close>. As a function of its loop variables it does not return when
  \<open>lvl \<le> 0 < dim\<close>, so its result is an option and \<open>None\<close> stands for a loop that
  runs forever.
  \<^verbatim>\<open>
  while (lvl < dim):
      rx = 1 & (hashcode >> 1)
      ry = 1 & (hashcode ^ rx)
      x, y = _rotate(lvl, x, y, rx, ry)
      x += lvl * rx
      y += lvl * ry
      hashcode >>= 2
      lvl <<= 1
  return x, y
  \<close>
\<close>

partial_function (option) hash2xy_loop ::
  "int \<Rightarrow> int \<Rightarrow> int \<Rightarrow> int \<Rightarrow> int \<Rightarrow> (int \<times> int) option" where
  "hash2xy_loop hashcode dm lvl x y =
     (if lvl < dm then
        (let rx = 1 AND (drop_bit 1 hashcode);
             ry = 1 AND (hashcode XOR rx);
             xy = rotate_xy lvl x y rx ry
         in hash2xy_loop (drop_bit 2 hashcode) dm (push_bit 1 lvl)
              (fst xy + lvl * rx) (snd xy + lvl * ry))
      else Some (x, y))"

text \<open>
  \<open>_hash2xy\<close>: the assertion, then the loop from \<open>x = y = 0\<close>, \<open>lvl = 1\<close>. The outer
  option is the loop's (\<open>None\<close>: no return), the sum is the assertion's.
\<close>

definition hash2xy :: "int \<Rightarrow> int \<Rightarrow> (error + int \<times> int) option" where
  "hash2xy hashcode dm =
     (if hashcode \<le> dm * dm - 1 then map_option Inr (hash2xy_loop hashcode dm 1 0 0)
      else Some (Inl AssertionError))"


text \<open>
  The result of \<open>k\<close> iterations of the loop of \<open>_hash2xy\<close> from \<open>x = y = 0\<close>,
  \<open>lvl = 1\<close>, by recursion on \<open>k\<close>: iteration \<open>k\<close> reads the hashcode shifted right
  by \<open>2 * k\<close> bits at \<open>lvl = 2 ^ k\<close>. It is used to reason about the loop.
\<close>

fun hash2xy_iter :: "nat \<Rightarrow> int \<Rightarrow> int \<times> int" where
  "hash2xy_iter 0 h = (0, 0)"
| "hash2xy_iter (Suc k) h =
     (let hk = drop_bit (2 * k) h;
          rx = 1 AND (drop_bit 1 hk);
          ry = 1 AND (hk XOR rx);
          xy = rotate_xy (2 ^ k) (fst (hash2xy_iter k h)) (snd (hash2xy_iter k h)) rx ry
      in (fst xy + 2 ^ k * rx, snd xy + 2 ^ k * ry))"

text \<open>
  The sum of \<open>3 * lvl * lvl\<close> over the levels that the loop of \<open>_xy2hash\<close> visits from
  \<open>lvl\<close> on: \<open>lvl\<close>, \<open>lvl >> 1\<close>, ... down to \<open>1\<close>.
\<close>

function level_sum :: "int \<Rightarrow> int" where
  "level_sum lvl = (if lvl > 0 then 3 * lvl * lvl + level_sum (drop_bit 1 lvl) else 0)"
  by pat_completeness auto
termination
  by (relation "measure nat") (auto simp: drop_bit_eq_div)

declare level_sum.simps [simp del]

section \<open>Grid quantizer and error margin\<close>

definition LAT_INTERVAL :: "pyfloat \<times> pyfloat" where
  "LAT_INTERVAL = (Finite (- 90), Finite 90)"

definition LNG_INTERVAL :: "pyfloat \<times> pyfloat" where
  "LNG_INTERVAL = (Finite (- 180), Finite 180)"

text \<open>
  \<^verbatim>\<open>
  def _dim_error(level):
      error = 1 / (1 << level)
      return 180 * error, 90 * error
  \<close>
  \<open>1 << level\<close> raises \<open>ValueError\<close> for a negative \<open>level\<close>. The integers \<open>180\<close> and
  \<open>90\<close> are doubles, so their conversion to a float is exact and does not raise; the
  same holds for \<open>360\<close> below.
\<close>

definition dim_error :: "int \<Rightarrow> error + pyfloat \<times> pyfloat" where
  "dim_error level =
     (if level < 0 then Inl ValueError
      else and_then (int_true_divide 1 (push_bit (nat level) 1)) (\<lambda>err.
           Inr (float_mul (Finite 180) err, float_mul (Finite 90) err)))"

text \<open>
  \<^verbatim>\<open>
  def _coord2int(lng, lat, dim):
      assert dim >= 1
      lat_y = (lat + _LAT_INTERVAL[1]) / 180.0 * dim
      lng_x = (lng + _LNG_INTERVAL[1]) / 360.0 * dim
      return floor(lng_x), floor(lat_y)
  \<close>
  \<open>dim\<close> is an integer; each product converts it to a float first.
\<close>

definition coord2int :: "pyfloat \<Rightarrow> pyfloat \<Rightarrow> int \<Rightarrow> error + int \<times> int" where
  "coord2int lng lat dm =
     (if \<not> dm \<ge> 1 then Inl AssertionError
      else and_then (float_div (float_add lat (snd LAT_INTERVAL)) (Finite 180)) (\<lambda>q_lat.
           and_then (int_to_float dm) (\<lambda>d_lat.
           let lat_y = float_mul q_lat d_lat in
           and_then (float_div (float_add lng (snd LNG_INTERVAL)) (Finite 360)) (\<lambda>q_lng.
           and_then (int_to_float dm) (\<lambda>d_lng.
           let lng_x = float_mul q_lng d_lng in
           and_then (math_floor lng_x) (\<lambda>x.
           and_then (math_floor lat_y) (\<lambda>y.
           Inr (x, y))))))))"

text \<open>
  \<^verbatim>\<open>
  def _int2coord(x, y, dim):
      assert dim >= 1
      assert x < dim
      assert y < dim
      lng = x / dim * 360 - 180
      lat = y / dim * 180 - 90
      return lng, lat
  \<close>
  \<open>x / dim\<close> is a true division of integers.
\<close>

definition int2coord :: "int \<Rightarrow> int \<Rightarrow> int \<Rightarrow> error + pyfloat \<times> pyfloat" where
  "int2coord x y dm =
     (if \<not> dm \<ge> 1 then Inl AssertionError
      else if \<not> x < dm then Inl AssertionError
      else if \<not> y < dm then Inl AssertionError
      else and_then (int_true_divide x dm) (\<lambda>qx.
           let lng = float_sub (float_mul qx (Finite 360)) (Finite 180) in
           and_then (int_true_divide y dm) (\<lambda>qy.
           let lat = float_sub (float_mul qy (Finite 180)) (Finite 90) in
           Inr (lng, lat))))"

section \<open>Integer/string codec\<close>

text \<open>
  Modelled from the spec: the module \<open>_int2str\<close> with \<open>encode_int\<close> and \<open>decode_int\<close>
  is not among the sources. The spec gives its contract: \<open>encode_int\<close> "encodes
  \<open>value\<close> as a sequence of characters from a fixed alphabet sized \<open>2^bits_per_char\<close>,
  most-significant group first, producing the shortest representation (no leading
  padding)", and \<open>decode_int\<close> is its "exact inverse; each character contributes
  \<open>bits_per_char\<close> bits, concatenated most-significant-character first". The alphabet is
  not given by the spec and is the argument \<open>abc\<close>; the character of the digit \<open>i\<close> is
  \<open>abc ! i\<close>. The shortest representation of \<open>0\<close> has no character.
\<close>

function encode_int :: "string \<Rightarrow> int \<Rightarrow> int \<Rightarrow> string" where
  "encode_int abc v bits_per_char =
     (if v > 0 \<and> bits_per_char > 0 then
        encode_int abc (drop_bit (nat bits_per_char) v) bits_per_char
          @ [abc ! nat (take_bit (nat bits_per_char) v)]
      else [])"
  by pat_completeness auto
termination
proof (relation "measure (\<lambda>(abc, v, b). nat v)")
  show "wf (measure (\<lambda>(abc, v, b). nat v))" by simp
next
  fix abc :: string and v b :: int
  assume a: "v > 0 \<and> b > 0"
  then have "1 \<le> nat b" by linarith
  then have "(2::int) ^ 1 \<le> 2 ^ nat b"
    by (intro power_increasing) simp_all
  then have "v div 2 ^ nat b < v"
    using a by (intro int_div_less_self) simp_all
  then show "((abc, drop_bit (nat b) v, b), (abc, v, b)) \<in> measure (\<lambda>(abc, v, b). nat v)"
    using a by (simp add: drop_bit_eq_div)
qed

declare encode_int.simps [simp del]

text \<open>
  Modelled from the spec: \<open>decode_int\<close>, the inverse of \<open>encode_int\<close>, which is not among
  the sources either. \<open>digit_of abc c\<close> is the position of the character \<open>c\<close> in the
  alphabet, and each character contributes \<open>bits_per_char\<close> bits, the first character the
  most significant ones. The spec does not say what a character outside the alphabet
  decodes to; here it counts as the digit \<open>length abc\<close>.
\<close>

fun digit_of :: "string \<Rightarrow> char \<Rightarrow> int" where
  "digit_of [] c = 0"
| "digit_of (d # ds) c = (if d = c then 0 else 1 + digit_of ds c)"

definition decode_int :: "string \<Rightarrow> string \<Rightarrow> int \<Rightarrow> int" where
  "decode_int abc code bits_per_char =
     foldl (\<lambda>acc c. push_bit (nat bits_per_char) acc + digit_of abc c) 0 code"

section \<open>Codec facade\<close>

text \<open>
  Python's \<open>s.rjust(width, fillchar)\<close>: \<open>s\<close> itself when it is \<open>width\<close> long or longer.
\<close>

definition rjust :: "string \<Rightarrow> int \<Rightarrow> char \<Rightarrow> string" where
  "rjust s width fillchar = replicate (nat (width - int (length s))) fillchar @ s"

text \<open>
  \<open>encode\<close> and \<open>decode_exactly\<close> call the codec, which is their first argument here.
  \<^verbatim>\<open>
  def encode(lng, lat, precision=10, bits_per_char=6):
      assert _LNG_INTERVAL[0] <= lng <= _LNG_INTERVAL[1]
      assert _LAT_INTERVAL[0] <= lat <= _LAT_INTERVAL[1]
      assert precision >= 0
      assert bits_per_char in (2, 4, 6)
      bits = precision * bits_per_char
      level = bits >> 1
      dim = 1 << level
      x, y = _coord2int(lng, lat, dim)
      return encode_int(_xy2hash(x, y, dim), bits_per_char).rjust(precision, '0')
  \<close>
  After the assertions \<open>level\<close> is not negative, so \<open>1 << level\<close> does not raise.
\<close>

definition encode ::
  "(int \<Rightarrow> int \<Rightarrow> string) \<Rightarrow> pyfloat \<Rightarrow> pyfloat \<Rightarrow> int \<Rightarrow> int \<Rightarrow> error + string" where
  "encode enc lng lat precision bits_per_char =
     (if \<not> (float_le (fst LNG_INTERVAL) lng \<and> float_le lng (snd LNG_INTERVAL)) then Inl AssertionError
      else if \<not> (float_le (fst LAT_INTERVAL) lat \<and> float_le lat (snd LAT_INTERVAL)) then Inl AssertionError
      else if \<not> precision \<ge> 0 then Inl AssertionError
      else if bits_per_char \<notin> {2, 4, 6} then Inl AssertionError
      else (let bits = precision * bits_per_char;
                level = drop_bit 1 bits;
                dm = push_bit (nat level) 1
            in and_then (coord2int lng lat dm) (\<lambda>(x, y).
               Inr (rjust (enc (xy2hash x y dm) bits_per_char) precision CHR ''0''))))"

text \<open>
  \<^verbatim>\<open>
  def decode_exactly(code, bits_per_char=6):
      assert bits_per_char in (2, 4, 6)
      bits = len(code) * bits_per_char
      level = bits >> 1
      dim = 1 << level
      x, y = _hash2xy(decode_int(code, bits_per_char), dim)
      lng, lat = _int2coord(x, y, dim)
      lng_err, lat_err = _dim_error(level)
      return lng+lng_err, lat+lat_err, lng_err, lat_err
  \<close>
  \<open>len(code)\<close> is not negative, so after the assertion \<open>level\<close> is not negative and
  \<open>1 << level\<close> does not raise. The result is \<open>None\<close> when the loop of \<open>_hash2xy\<close> does
  not return.
\<close>

definition decode_exactly ::
  "(string \<Rightarrow> int \<Rightarrow> int) \<Rightarrow> string \<Rightarrow> int \<Rightarrow>
     (error + pyfloat \<times> pyfloat \<times> pyfloat \<times> pyfloat) option" where
  "decode_exactly dec code bits_per_char =
     (if bits_per_char \<notin> {2, 4, 6} then Some (Inl AssertionError)
      else (let bits = int (length code) * bits_per_char;
                level = drop_bit 1 bits;
                dm = push_bit (nat level) 1
            in case hash2xy (dec code bits_per_char) dm of
                 None \<Rightarrow> None
               | Some (Inl e) \<Rightarrow> Some (Inl e)
               | Some (Inr (x, y)) \<Rightarrow>
                   Some (and_then (int2coord x y dm) (\<lambda>(lng, lat).
                         and_then (dim_error level) (\<lambda>(lng_err, lat_err).
                         Inr (float_add lng lng_err, float_add lat lat_err, lng_err, lat_err))))))"

text \<open>
  \<^verbatim>\<open>
  def decode(code, bits_per_char=6):
      assert bits_per_char in (2, 4, 6)
      lng, lat, _lng_err, _lat_err = decode_exactly(code, bits_per_char)
      return lng, lat
  \<close>
\<close>

definition decode ::
  "(string \<Rightarrow> int \<Rightarrow> int) \<Rightarrow> string \<Rightarrow> int \<Rightarrow> (error + pyfloat \<times> pyfloat) option" where
  "decode dec code bits_per_char =
     (if bits_per_char \<notin> {2, 4, 6} then Some (Inl AssertionError)
      else (case decode_exactly dec code bits_per_char of
              None \<Rightarrow> None
            | Some (Inl e) \<Rightarrow> Some (Inl e)
            | Some (Inr (lng, lat, lng_err, lat_err)) \<Rightarrow> Some (Inr (lng, lat))))"

section \<open>Properties of the curve transform\<close>

subsection \<open>The forward loop on a power of two\<close>

lemma quadrant_bit_pow: "quadrant_bit x (2 ^ k) = of_bool (bit x k)"
proof -
  have "0 \<le> x AND 2 ^ k" by simp
  moreover have "x AND 2 ^ k = 0 \<longleftrightarrow> \<not> bit x k" by (rule and_exp_eq_0_iff_not_bit)
  ultimately have "0 < x AND 2 ^ k \<longleftrightarrow> bit x k" by linarith
  then show ?thesis unfolding quadrant_bit_def by simp
qed

lemma quadrant_bit_cases: "quadrant_bit x lvl = 0 \<or> quadrant_bit x lvl = 1"
  by (simp add: quadrant_bit_def)

lemma xy2hash_loop_pos:
  "0 < lvl \<Longrightarrow> xy2hash_loop d lvl x y =
     xy2hash_loop (d + lvl * lvl * ((3 * quadrant_bit x lvl) XOR quadrant_bit y lvl)) (drop_bit 1 lvl)
       (fst (rotate_xy lvl x y (quadrant_bit x lvl) (quadrant_bit y lvl)))
       (snd (rotate_xy lvl x y (quadrant_bit x lvl) (quadrant_bit y lvl)))"
  by (subst xy2hash_loop.simps) (simp add: Let_def)

lemma xy2hash_loop_nonpos: "\<not> 0 < lvl \<Longrightarrow> xy2hash_loop d lvl x y = d"
  by (subst xy2hash_loop.simps) simp

lemma loop_acc: "xy2hash_loop (d + e) lvl x y = d + xy2hash_loop e lvl x y"
proof (induction e lvl x y rule: xy2hash_loop.induct)
  case (1 e lvl x y)
  show ?case
  proof (cases "lvl > 0")
    case True
    then show ?thesis
      using 1 [OF True refl refl refl refl]
      by (simp add: xy2hash_loop_pos [OF True] add.assoc)
  next
    case False
    then show ?thesis by (simp add: xy2hash_loop_nonpos)
  qed
qed

lemma quad_code_range: "0 \<le> (3 * quadrant_bit x lvl) XOR quadrant_bit y lvl \<and> (3 * quadrant_bit x lvl) XOR quadrant_bit y lvl \<le> 3"
  using quadrant_bit_cases [of x lvl] quadrant_bit_cases [of y lvl] by auto

lemma xy2hash_pow_0: "xy2hash x y (2 ^ 0) = 0"
  by (simp add: xy2hash_def xy2hash_loop_nonpos)

lemma xy2hash_pow_Suc:
  "xy2hash x y (2 ^ Suc k) =
     2 ^ k * 2 ^ k * ((3 * of_bool (bit x k)) XOR of_bool (bit y k)) +
     xy2hash (fst (rotate_xy (2 ^ k) x y (of_bool (bit x k)) (of_bool (bit y k))))
             (snd (rotate_xy (2 ^ k) x y (of_bool (bit x k)) (of_bool (bit y k)))) (2 ^ k)"
proof -
  have d: "drop_bit 1 ((2::int) ^ Suc k) = 2 ^ k"
    by (simp add: drop_bit_eq_div)
  have p: "(0::int) < 2 ^ k" by simp
  show ?thesis
    unfolding xy2hash_def d
    apply (subst xy2hash_loop_pos [OF p])
    apply (simp only: quadrant_bit_pow)
    apply (subst loop_acc [of _ 0, simplified])
    apply simp
    done
qed

lemma xor_code_cases:
  "(3 * of_bool a) XOR of_bool b = (if a then (if b then 2 else 3) else (if b then 1 else (0::int)))"
  by simp

lemma xy2hash_pow_range: "0 \<le> xy2hash x y (2 ^ k) \<and> xy2hash x y (2 ^ k) < 2 ^ k * 2 ^ k"
proof (induction k arbitrary: x y)
  case 0
  show ?case by (simp add: xy2hash_pow_0 del: power_0)
next
  case (Suc k)
  let ?x' = "fst (rotate_xy (2 ^ k) x y (of_bool (bit x k)) (of_bool (bit y k)))"
  let ?y' = "snd (rotate_xy (2 ^ k) x y (of_bool (bit x k)) (of_bool (bit y k)))"
  let ?q = "(3 * of_bool (bit x k)) XOR of_bool (bit y k) :: int"
  have q: "0 \<le> ?q \<and> ?q \<le> 3" by (simp add: xor_code_cases)
  have ih: "0 \<le> xy2hash ?x' ?y' (2 ^ k) \<and> xy2hash ?x' ?y' (2 ^ k) < 2 ^ k * 2 ^ k"
    by (rule Suc.IH)
  have m: "(2::int) ^ k * 2 ^ k * ?q \<le> 2 ^ k * 2 ^ k * 3"
    using q by (intro mult_left_mono) simp_all
  have n: "0 \<le> (2::int) ^ k * 2 ^ k * ?q"
    using q by simp
  have e: "(2::int) ^ Suc k * 2 ^ Suc k = 2 ^ k * 2 ^ k * 3 + 2 ^ k * 2 ^ k" by simp
  show ?case
    unfolding xy2hash_pow_Suc e using ih m n by linarith
qed

lemma hash2xy_loop_iter:
  "j \<le> n \<Longrightarrow>
   hash2xy_loop (drop_bit (2 * j) h) (2 ^ n) (2 ^ j) (fst (hash2xy_iter j h)) (snd (hash2xy_iter j h))
     = Some (hash2xy_iter n h)"
proof (induction "n - j" arbitrary: j)
  case 0
  then have "j = n" by simp
  then show ?case by (subst hash2xy_loop.simps) simp
next
  case (Suc m)
  then have lt: "j < n" and m: "m = n - Suc j" and le: "Suc j \<le> n" by simp_all
  have p: "(2::int) ^ j < 2 ^ n" using lt by simp
  have d: "drop_bit 2 (drop_bit (2 * j) h) = drop_bit (2 * Suc j) h"
    by (simp add: drop_bit_drop_bit)
  have s: "push_bit 1 ((2::int) ^ j) = 2 ^ Suc j" by (simp add: push_bit_eq_mult)
  show ?case
    apply (subst hash2xy_loop.simps)
    apply (simp only: p if_True Let_def d s)
    using Suc.hyps(1) [OF m le]
    apply (simp add: Let_def)
    done
qed

lemma hash2xy_loop_pow: "hash2xy_loop h (2 ^ n) 1 0 0 = Some (hash2xy_iter n h)"
  using hash2xy_loop_iter [of 0 n h] by simp

lemma rotate_xy_eq:
  "rotate_xy n x y rx ry =
     (if ry = 0 then (if rx = 1 then (n - 1 - y, n - 1 - x) else (y, x)) else (x, y))"
  by (simp add: rotate_xy_def)

lemma one_and_drop_bit: "1 AND drop_bit 1 (drop_bit n (h::int)) = of_bool (bit h (n + 1))"
  by (simp add: one_and_eq drop_bit_drop_bit bit_iff_odd_drop_bit mod2_eq_if)

lemma one_and_xor: "1 AND (drop_bit n (h::int) XOR of_bool b) = of_bool (bit h n \<noteq> b)"
  by (cases b) (simp_all add: one_and_eq mod2_eq_if bit_iff_odd_drop_bit even_xor_iff)

lemma hash2xy_iter_Suc:
  "hash2xy_iter (Suc k) h =
     (let rx = of_bool (bit h (2 * k + 1));
          ry = of_bool (bit h (2 * k) \<noteq> bit h (2 * k + 1));
          xy = rotate_xy (2 ^ k) (fst (hash2xy_iter k h)) (snd (hash2xy_iter k h)) rx ry
      in (fst xy + 2 ^ k * rx, snd xy + 2 ^ k * ry))"
  by (simp only: hash2xy_iter.simps Let_def one_and_drop_bit one_and_xor)

lemma hash2xy_iter_cong:
  "(\<And>i. i < 2 * k \<Longrightarrow> bit h i = bit h' i) \<Longrightarrow> hash2xy_iter k h = hash2xy_iter k h'"
proof (induction k)
  case 0
  show ?case by simp
next
  case (Suc k)
  have "hash2xy_iter k h = hash2xy_iter k h'"
    by (rule Suc.IH) (simp add: Suc.prems)
  moreover have "bit h (2 * k) = bit h' (2 * k)" "bit h (2 * k + 1) = bit h' (2 * k + 1)"
    by (simp_all add: Suc.prems)
  ultimately show ?case
    by (simp only: hash2xy_iter_Suc)
qed

lemma hash2xy_iter_range:
  "0 \<le> fst (hash2xy_iter k h) \<and> fst (hash2xy_iter k h) < 2 ^ k \<and>
   0 \<le> snd (hash2xy_iter k h) \<and> snd (hash2xy_iter k h) < 2 ^ k"
proof (induction k)
  case 0
  show ?case by simp
next
  case (Suc k)
  then show ?case
    by (simp only: hash2xy_iter_Suc Let_def) (auto simp: rotate_xy_eq)
qed

lemma compose_bits:
  fixes q r :: int
  assumes "0 \<le> r" "r < 2 ^ k * 2 ^ k"
  shows "i < 2 * k \<Longrightarrow> bit (2 ^ k * 2 ^ k * q + r) i = bit r i"
    and "bit (2 ^ k * 2 ^ k * q + r) (2 * k + j) = bit q j"
proof -
  let ?h = "2 ^ k * 2 ^ k * q + r"
  have p: "(2::int) ^ k * 2 ^ k = 2 ^ (2 * k)"
    by (simp add: power_add [symmetric] mult_2)
  have t: "take_bit (2 * k) ?h = r"
    using assms by (simp add: take_bit_eq_mod p)
  have d: "drop_bit (2 * k) ?h = q"
    using assms by (simp add: drop_bit_eq_div p)
  show "i < 2 * k \<Longrightarrow> bit ?h i = bit r i"
    using bit_take_bit_iff [of "2 * k" ?h i] by (simp add: t)
  show "bit ?h (2 * k + j) = bit q j"
    using bit_drop_bit_eq [of "2 * k" ?h] by (simp add: d)
qed

lemma take_bit_reflect: "take_bit k (2 ^ k - 1 - (a::int)) = 2 ^ k - 1 - take_bit k a"
proof -
  have "2 ^ k - 1 - a = NOT a + 2 ^ k"
    by (simp add: not_int_def)
  then have "take_bit k (2 ^ k - 1 - a) = take_bit k (NOT a)"
    by (simp only: take_bit_eq_mod mod_add_self2)
  also have "\<dots> = mask k - take_bit k a"
    by (rule take_bit_not_eq_mask_diff)
  finally show ?thesis by (simp add: mask_eq_exp_minus_1)
qed

lemma take_bit_Suc_bit: "take_bit (Suc k) (a::int) = take_bit k a + 2 ^ k * of_bool (bit a k)"
  by (simp add: take_bit_Suc_from_most)

lemma iter_xy2hash: "hash2xy_iter k (xy2hash x y (2 ^ k)) = (take_bit k x, take_bit k y)"
proof (induction k arbitrary: x y)
  case 0
  show ?case by simp
next
  case (Suc k)
  let ?rx = "of_bool (bit x k) :: int" and ?ry = "of_bool (bit y k) :: int"
  let ?x' = "fst (rotate_xy (2 ^ k) x y ?rx ?ry)"
  let ?y' = "snd (rotate_xy (2 ^ k) x y ?rx ?ry)"
  let ?q = "(3 * ?rx) XOR ?ry"
  let ?r = "xy2hash ?x' ?y' (2 ^ k)"
  let ?h = "2 ^ k * 2 ^ k * ?q + ?r"
  have r: "0 \<le> ?r" "?r < 2 ^ k * 2 ^ k"
    using xy2hash_pow_range [of ?x' ?y' k] by simp_all
  have low: "hash2xy_iter k ?h = hash2xy_iter k ?r"
    by (rule hash2xy_iter_cong) (rule compose_bits(1) [OF r])
  have b1: "bit ?h (2 * k + 1) = bit x k"
    by (simp only: compose_bits(2) [OF r] xor_code_cases) simp
  have b0: "bit ?h (2 * k) = (bit x k \<noteq> bit y k)"
    using compose_bits(2) [OF r, of ?q 0] by (simp only: xor_code_cases) simp
  have ih: "hash2xy_iter k ?r = (take_bit k ?x', take_bit k ?y')"
    by (rule Suc.IH)
  have "hash2xy_iter (Suc k) ?h = (take_bit (Suc k) x, take_bit (Suc k) y)"
    unfolding hash2xy_iter_Suc low ih b1 b0 Let_def take_bit_Suc_bit
    by (cases "bit x k"; cases "bit y k") (simp_all add: rotate_xy_eq take_bit_reflect)
  then show ?case by (simp only: xy2hash_pow_Suc)
qed

lemma take_bit_Suc_eqD:
  fixes a b :: int
  assumes "take_bit (Suc k) a = take_bit (Suc k) b"
  shows "take_bit k a = take_bit k b" and "bit a k = bit b k"
proof -
  have "take_bit k (take_bit (Suc k) a) = take_bit k (take_bit (Suc k) b)"
    by (simp only: assms)
  then show "take_bit k a = take_bit k b" by simp
  have "bit (take_bit (Suc k) a) k = bit (take_bit (Suc k) b) k"
    by (simp only: assms)
  then show "bit a k = bit b k" by (simp add: bit_take_bit_iff)
qed

lemma xy2hash_cong:
  "take_bit k x = take_bit k x' \<Longrightarrow> take_bit k y = take_bit k y' \<Longrightarrow>
   xy2hash x y (2 ^ k) = xy2hash x' y' (2 ^ k)"
proof (induction k arbitrary: x y x' y')
  case 0
  show ?case by (simp only: xy2hash_pow_0)
next
  case (Suc k)
  note x = take_bit_Suc_eqD [OF Suc.prems(1)] and y = take_bit_Suc_eqD [OF Suc.prems(2)]
  have "xy2hash (fst (rotate_xy (2 ^ k) x y (of_bool (bit x' k)) (of_bool (bit y' k))))
                (snd (rotate_xy (2 ^ k) x y (of_bool (bit x' k)) (of_bool (bit y' k)))) (2 ^ k) =
        xy2hash (fst (rotate_xy (2 ^ k) x' y' (of_bool (bit x' k)) (of_bool (bit y' k))))
                (snd (rotate_xy (2 ^ k) x' y' (of_bool (bit x' k)) (of_bool (bit y' k)))) (2 ^ k)"
    by (rule Suc.IH) (simp_all add: rotate_xy_eq take_bit_reflect x y)
  then show ?case
    by (simp only: xy2hash_pow_Suc x(2) y(2))
qed

lemma bit_top:
  fixes a :: int
  assumes "0 \<le> a" "a < 2 ^ k"
  shows "bit (a + 2 ^ k * of_bool b) k = b" and "take_bit k (a + 2 ^ k * of_bool b) = a"
proof -
  have t: "take_bit k a = a" using assms by (simp add: take_bit_int_eq_self)
  show "bit (a + 2 ^ k * of_bool b) k = b"
    using assms by (cases b) (simp_all add: bit_iff_odd div_pos_pos_trivial)
  show "take_bit k (a + 2 ^ k * of_bool b) = a"
    using t by (cases b) (simp_all add: take_bit_eq_mod)
qed

lemma take_bit_two_more:
  "take_bit (2 * Suc k) (h::int) =
     2 ^ k * 2 ^ k * (2 * of_bool (bit h (2 * k + 1)) + of_bool (bit h (2 * k))) + take_bit (2 * k) h"
proof -
  have p: "(2::int) ^ k * 2 ^ k = 2 ^ (2 * k)"
    by (simp add: power_add [symmetric] mult_2)
  show ?thesis
    by (simp add: take_bit_Suc_bit p algebra_simps)
qed

lemma take_bit_minus_pow: "take_bit k (a - 2 ^ k) = take_bit k (a::int)"
  by (simp add: take_bit_eq_mod flip: mod_diff_right_eq [of a "2 ^ k" "2 ^ k"])

lemma take_bit_plus_pow: "take_bit k (a + 2 ^ k) = take_bit k (a::int)"
  by (simp add: take_bit_eq_mod)

lemma rotate_back:
  fixes u v :: int and k :: nat and a b :: bool
  defines "xy \<equiv> rotate_xy (2 ^ k) u v (of_bool a) (of_bool b)"
  defines "xy' \<equiv> rotate_xy (2 ^ k) (fst xy + 2 ^ k * of_bool a) (snd xy + 2 ^ k * of_bool b)
                    (of_bool a) (of_bool b)"
  shows "take_bit k (fst xy') = take_bit k u" and "take_bit k (snd xy') = take_bit k v"
  unfolding xy'_def xy_def
  by (cases a; cases b; simp add: rotate_xy_eq take_bit_minus_pow take_bit_plus_pow)+

lemma xy2hash_iter:
  "xy2hash (fst (hash2xy_iter k h)) (snd (hash2xy_iter k h)) (2 ^ k) = take_bit (2 * k) h"
proof (induction k)
  case 0
  show ?case by (simp add: xy2hash_pow_0 del: power_0)
next
  case (Suc k)
  let ?u = "fst (hash2xy_iter k h)" and ?v = "snd (hash2xy_iter k h)"
  let ?b1 = "bit h (2 * k + 1)" and ?b0 = "bit h (2 * k) \<noteq> bit h (2 * k + 1)"
  let ?xy = "rotate_xy (2 ^ k) ?u ?v (of_bool ?b1) (of_bool ?b0)"
  let ?X = "fst ?xy + 2 ^ k * of_bool ?b1" and ?Y = "snd ?xy + 2 ^ k * of_bool ?b0"
  have uv: "0 \<le> ?u" "?u < 2 ^ k" "0 \<le> ?v" "?v < 2 ^ k"
    using hash2xy_iter_range [of k h] by simp_all
  have rng: "0 \<le> fst ?xy" "fst ?xy < 2 ^ k" "0 \<le> snd ?xy" "snd ?xy < 2 ^ k"
    using uv by (auto simp: rotate_xy_eq)
  have it: "hash2xy_iter (Suc k) h = (?X, ?Y)"
    by (simp only: hash2xy_iter_Suc Let_def)
  have bX: "bit ?X k = ?b1" by (rule bit_top(1) [OF rng(1,2)])
  have bY: "bit ?Y k = ?b0" by (rule bit_top(1) [OF rng(3,4)])
  have tX: "take_bit k ?X = fst ?xy" by (rule bit_top(2) [OF rng(1,2)])
  have tY: "take_bit k ?Y = snd ?xy" by (rule bit_top(2) [OF rng(3,4)])
  have tu: "take_bit k ?u = ?u" "take_bit k ?v = ?v"
    using uv by (simp_all add: take_bit_int_eq_self)
  have bk: "xy2hash (fst (rotate_xy (2 ^ k) ?X ?Y (of_bool ?b1) (of_bool ?b0)))
                      (snd (rotate_xy (2 ^ k) ?X ?Y (of_bool ?b1) (of_bool ?b0))) (2 ^ k) =
              xy2hash ?u ?v (2 ^ k)"
    by (rule xy2hash_cong) (rule rotate_back)+
  have qv: "(3 * of_bool ?b1) XOR of_bool ?b0 = (2 * of_bool ?b1 + of_bool (bit h (2 * k)) :: int)"
    by (simp only: xor_code_cases) simp
  have "xy2hash ?X ?Y (2 ^ Suc k) = take_bit (2 * Suc k) h"
    by (simp only: xy2hash_pow_Suc bX bY bk Suc.IH qv take_bit_two_more)
  then show ?case by (simp only: it fst_conv snd_conv)
qed



subsection \<open>Round trips on a power of two\<close>

lemma hash2xy_xy2hash_pow:
  assumes "0 \<le> x" "x < 2 ^ n" "0 \<le> y" "y < 2 ^ n"
  shows "hash2xy (xy2hash x y (2 ^ n)) (2 ^ n) = Some (Inr (x, y))"
proof -
  have "xy2hash x y (2 ^ n) \<le> 2 ^ n * 2 ^ n - 1"
    using xy2hash_pow_range [of x y n] by simp
  moreover have "take_bit n x = x" "take_bit n y = y"
    using assms by (simp_all add: take_bit_int_eq_self)
  ultimately show ?thesis
    by (simp add: hash2xy_def hash2xy_loop_pow iter_xy2hash)
qed

lemma xy2hash_hash2xy_pow:
  assumes "0 \<le> h" "h < 2 ^ n * 2 ^ n"
  shows "hash2xy h (2 ^ n) = Some (Inr (hash2xy_iter n h))"
    and "xy2hash (fst (hash2xy_iter n h)) (snd (hash2xy_iter n h)) (2 ^ n) = h"
proof -
  have p: "(2::int) ^ n * 2 ^ n = 2 ^ (2 * n)"
    by (simp add: power_add [symmetric] mult_2)
  show "hash2xy h (2 ^ n) = Some (Inr (hash2xy_iter n h))"
    using assms by (simp add: hash2xy_def hash2xy_loop_pow)
  have "take_bit (2 * n) h = h"
    using assms by (simp add: take_bit_int_eq_self p)
  then show "xy2hash (fst (hash2xy_iter n h)) (snd (hash2xy_iter n h)) (2 ^ n) = h"
    by (simp only: xy2hash_iter)
qed


subsection \<open>The inverse loop returns for any \<open>dim\<close>\<close>

text \<open>
  From \<open>lvl = 1\<close> the loop of \<open>_hash2xy\<close> doubles \<open>lvl\<close> until it reaches \<open>dim\<close>, so
  \<open>_hash2xy\<close> returns or raises for every argument.
\<close>

lemma hash2xy_loop_returns:
  "0 < lvl \<Longrightarrow> \<exists>r. hash2xy_loop h dm lvl x y = Some r"
proof (induction "nat (dm - lvl)" arbitrary: h lvl x y rule: less_induct)
  case less
  show ?case
  proof (cases "lvl < dm")
    case False
    then show ?thesis by (subst hash2xy_loop.simps) simp
  next
    case True
    have p: "0 < push_bit 1 lvl" using less.prems by (simp add: push_bit_eq_mult)
    have m: "nat (dm - push_bit 1 lvl) < nat (dm - lvl)"
      using True less.prems by (simp add: push_bit_eq_mult)
    show ?thesis
      by (subst hash2xy_loop.simps) (simp only: True if_True Let_def less.hyps [OF m p])
  qed
qed

lemma hash2xy_returns: "\<exists>r. hash2xy h dm = Some r"
  using hash2xy_loop_returns [of 1 h dm 0 0] by (auto simp: hash2xy_def)

subsection \<open>Bounds of the forward loop for any \<open>dim\<close>\<close>

lemma level_sum_nonpos: "\<not> 0 < lvl \<Longrightarrow> level_sum lvl = 0"
  by (subst level_sum.simps) simp

lemma level_sum_pos: "0 < lvl \<Longrightarrow> level_sum lvl = 3 * lvl * lvl + level_sum (drop_bit 1 lvl)"
  by (subst level_sum.simps) simp

lemma level_sum_bounds: "0 \<le> level_sum lvl \<and> (0 < lvl \<longrightarrow> level_sum lvl \<le> 4 * lvl * lvl - 1)"
proof (induction lvl rule: level_sum.induct)
  case (1 lvl)
  show ?case
  proof (cases "0 < lvl")
    case False
    then show ?thesis by (simp add: level_sum_nonpos)
  next
    case True
    let ?h = "drop_bit 1 lvl"
    have ih: "0 \<le> level_sum ?h" "0 < ?h \<Longrightarrow> level_sum ?h \<le> 4 * ?h * ?h - 1"
      using 1 [OF True] by simp_all
    have h: "0 \<le> ?h" "2 * ?h \<le> lvl" using True by (simp_all add: drop_bit_eq_div)
    have sq: "(2 * ?h) * (2 * ?h) \<le> lvl * lvl"
      using h by (intro mult_mono) simp_all
    have "level_sum ?h \<le> lvl * lvl - 1"
    proof (cases "0 < ?h")
      case True
      then show ?thesis using ih(2) sq by simp
    next
      case False
      have "1 * 1 \<le> lvl * lvl" using \<open>0 < lvl\<close> by (intro mult_mono) simp_all
      then show ?thesis using False by (simp add: level_sum_nonpos)
    qed
    then show ?thesis
      using ih(1) True by (simp add: level_sum_pos)
  qed
qed

lemma xy2hash_loop_bounds:
  "d \<le> xy2hash_loop d lvl x y \<and> xy2hash_loop d lvl x y \<le> d + level_sum lvl"
proof (induction d lvl x y rule: xy2hash_loop.induct)
  case (1 d lvl x y)
  show ?case
  proof (cases "0 < lvl")
    case False
    then show ?thesis by (simp add: xy2hash_loop_nonpos level_sum_nonpos)
  next
    case True
    let ?q = "(3 * quadrant_bit x lvl) XOR quadrant_bit y lvl"
    have q: "0 \<le> ?q" "?q \<le> 3" using quad_code_range [of x lvl y] by simp_all
    have a: "0 \<le> lvl * lvl * ?q" using q True by simp
    have "lvl * lvl * ?q \<le> lvl * lvl * 3"
      using q True by (intro mult_left_mono) simp_all
    then have b: "lvl * lvl * ?q \<le> 3 * lvl * lvl" by simp
    show ?thesis
      using 1 [OF True refl refl refl refl] a b
      by (simp add: xy2hash_loop_pos [OF True] level_sum_pos [OF True])
  qed
qed

lemma level_sum_pow: "level_sum (2 ^ k) = 4 * 2 ^ k * 2 ^ k - 1"
proof (induction k)
  case 0
  show ?case by (simp add: level_sum_pos level_sum_nonpos)
next
  case (Suc k)
  have d: "drop_bit 1 ((2::int) ^ Suc k) = 2 ^ k" by (simp add: drop_bit_eq_div)
  have p: "(0::int) < 2 ^ Suc k" by simp
  show ?case
    by (simp only: level_sum_pos [OF p] d Suc.IH) simp
qed

lemma level_sum_half_pow: "level_sum (drop_bit 1 (2 ^ n)) = 2 ^ n * 2 ^ n - 1"
proof (cases n)
  case 0
  then show ?thesis by (simp add: level_sum_nonpos)
next
  case (Suc k)
  have d: "drop_bit 1 ((2::int) ^ Suc k) = 2 ^ k" by (simp add: drop_bit_eq_div)
  show ?thesis by (simp only: Suc d level_sum_pow) simp
qed

lemma level_sum_half: "1 \<le> dm \<Longrightarrow> level_sum (drop_bit 1 dm) \<le> dm * dm - 1"
proof -
  assume dm: "1 \<le> dm"
  let ?h = "drop_bit 1 dm"
  have h: "0 \<le> ?h" "2 * ?h \<le> dm" using dm by (simp_all add: drop_bit_eq_div)
  have sq: "(2 * ?h) * (2 * ?h) \<le> dm * dm"
    using h by (intro mult_mono) simp_all
  show ?thesis
  proof (cases "0 < ?h")
    case True
    then show ?thesis using level_sum_bounds [of ?h] sq by simp
  next
    case False
    have "1 * 1 \<le> dm * dm" using dm by (intro mult_mono) simp_all
    then show ?thesis using False by (simp add: level_sum_nonpos)
  qed
qed

lemma hash2xy_rejects: "dm * dm \<le> index \<Longrightarrow> hash2xy index dm = Some (Inl AssertionError)"
  by (simp add: hash2xy_def)

section \<open>Properties of the codec\<close>

text \<open>
  The contract of the spec for the codec modelled above: over an alphabet of
  \<open>2^bits_per_char\<close> distinct characters whose first character is the fill character,
  a code of \<open>n\<close> characters decodes to a value below \<open>2^(n * bits_per_char)\<close>, and
  \<open>decode_int(encode_int(v, b).rjust(p, zero_char), b) = v\<close>.
\<close>

lemma decode_int_Nil: "decode_int abc [] b = 0"
  by (simp add: decode_int_def)

lemma decode_int_snoc:
  "decode_int abc (code @ [c]) b = push_bit (nat b) (decode_int abc code b) + digit_of abc c"
  by (simp add: decode_int_def)

lemma encode_int_nonpos: "v \<le> 0 \<Longrightarrow> encode_int abc v b = []"
  by (subst encode_int.simps) simp

lemma encode_int_pos:
  "0 < v \<Longrightarrow> 0 < b \<Longrightarrow>
   encode_int abc v b = encode_int abc (drop_bit (nat b) v) b @ [abc ! nat (take_bit (nat b) v)]"
  by (subst encode_int.simps) simp

lemma digit_of_range:
  "c \<in> set abc \<Longrightarrow> 0 \<le> digit_of abc c \<and> digit_of abc c < int (length abc)"
  by (induction abc) auto

lemma digit_of_nonneg: "0 \<le> digit_of abc c"
  by (induction abc) auto

lemma digit_of_nth:
  "distinct abc \<Longrightarrow> i < length abc \<Longrightarrow> digit_of abc (abc ! i) = int i"
proof (induction abc arbitrary: i)
  case Nil
  then show ?case by simp
next
  case (Cons d ds)
  show ?case
  proof (cases i)
    case 0
    then show ?thesis by simp
  next
    case (Suc j)
    then have j: "j < length ds" using Cons.prems(2) by simp
    then have "ds ! j \<in> set ds" by simp
    then have "d \<noteq> ds ! j" using Cons.prems(1) by auto
    then show ?thesis using Cons.IH [OF _ j] Cons.prems(1) Suc by simp
  qed
qed

lemma decode_int_range:
  assumes "set code \<subseteq> set abc" "int (length abc) = 2 ^ nat b"
  shows "0 \<le> decode_int abc code b \<and> decode_int abc code b < (2 ^ nat b) ^ length code"
  using assms(1)
proof (induction code rule: rev_induct)
  case Nil
  show ?case by (simp add: decode_int_Nil)
next
  case (snoc c code)
  let ?v = "decode_int abc code b"
  have ih: "0 \<le> ?v" "?v + 1 \<le> (2 ^ nat b) ^ length code"
    using snoc by simp_all
  have d: "0 \<le> digit_of abc c" "digit_of abc c < 2 ^ nat b"
    using digit_of_range [of c abc] snoc.prems assms(2) by simp_all
  have "2 ^ nat b * (?v + 1) \<le> 2 ^ nat b * (2 ^ nat b) ^ length code"
    using ih(2) by (intro mult_left_mono) simp_all
  then have "2 ^ nat b * ?v + digit_of abc c < (2 ^ nat b) ^ length (code @ [c])"
    using d(2) by (simp add: algebra_simps)
  moreover have "0 \<le> 2 ^ nat b * ?v + digit_of abc c"
    using ih(1) d(1) by simp
  ultimately show ?case
    by (simp add: decode_int_snoc push_bit_eq_mult mult.commute)
qed

lemma decode_encode_int:
  "distinct abc \<Longrightarrow> int (length abc) = 2 ^ nat b \<Longrightarrow> 0 < b \<Longrightarrow> 0 \<le> v \<Longrightarrow>
   decode_int abc (encode_int abc v b) b = v"
proof (induction abc v b rule: encode_int.induct)
  case (1 abc v b)
  show ?case
  proof (cases "0 < v")
    case False
    then show ?thesis using "1.prems" by (simp add: encode_int_nonpos decode_int_Nil)
  next
    case True
    let ?q = "drop_bit (nat b) v" and ?r = "take_bit (nat b) v"
    have q: "0 \<le> ?q" using True by simp
    have ih: "decode_int abc (encode_int abc ?q b) b = ?q"
      using "1.IH" "1.prems" True q by simp
    have r: "0 \<le> ?r" "?r < 2 ^ nat b" by simp_all
    then have "nat ?r < length abc" using "1.prems"(2) by linarith
    then have d: "digit_of abc (abc ! nat ?r) = ?r"
      using digit_of_nth [OF "1.prems"(1)] r(1) by simp
    have "push_bit (nat b) ?q + ?r = v"
      by (rule bits_ident)
    then show ?thesis
      using True "1.prems"(3) by (simp add: encode_int_pos decode_int_snoc ih d)
  qed
qed

lemma int_div_less:
  fixes v m n :: int
  assumes "0 < m" "v < m * n"
  shows "v div m < n"
proof (rule ccontr)
  assume "\<not> v div m < n"
  then have "m * n \<le> m * (v div m)"
    using assms(1) by (intro mult_left_mono) simp_all
  moreover have "m * (v div m) + v mod m = v" by simp
  moreover have "0 \<le> v mod m" using assms(1) by simp
  ultimately show False using assms(2) by linarith
qed

lemma length_encode_int:
  "0 < b \<Longrightarrow> v < (2 ^ nat b) ^ p \<Longrightarrow> length (encode_int abc v b) \<le> p"
proof (induction p arbitrary: v)
  case 0
  then show ?case by (simp add: encode_int_nonpos)
next
  case (Suc p)
  show ?case
  proof (cases "0 < v")
    case False
    then show ?thesis by (simp add: encode_int_nonpos)
  next
    case True
    have "drop_bit (nat b) v < (2 ^ nat b) ^ p"
      using Suc.prems(2) by (simp add: drop_bit_eq_div int_div_less)
    then have "length (encode_int abc (drop_bit (nat b) v) b) \<le> p"
      using Suc.IH Suc.prems(1) by simp
    then show ?thesis
      using True Suc.prems(1) by (simp add: encode_int_pos)
  qed
qed

lemma decode_int_zero_prefix:
  assumes "digit_of abc z = 0"
  shows "decode_int abc (replicate k z @ code) b = decode_int abc code b"
proof -
  have "foldl (\<lambda>acc c. push_bit (nat b) acc + digit_of abc c) 0 (replicate k z) = 0"
    using assms by (induction k) simp_all
  then show ?thesis by (simp add: decode_int_def)
qed

lemma rjust_codec:
  assumes "distinct abc" "int (length abc) = 2 ^ nat b" "0 < b" "digit_of abc z = 0"
    and "0 \<le> v" "v < (2 ^ nat b) ^ nat p"
  shows "length (rjust (encode_int abc v b) p z) = nat p"
    and "decode_int abc (rjust (encode_int abc v b) p z) b = v"
proof -
  have "length (encode_int abc v b) \<le> nat p"
    using length_encode_int [OF assms(3,6)] .
  then show "length (rjust (encode_int abc v b) p z) = nat p"
    by (simp add: rjust_def)
  show "decode_int abc (rjust (encode_int abc v b) p z) b = v"
    unfolding rjust_def
    by (simp only: decode_int_zero_prefix [OF assms(4)] decode_encode_int [OF assms(1,2,3,5)])
qed

section \<open>Evaluations of the integer functions\<close>

lemma push_bit_one_ge: "1 \<le> push_bit n (1::int)"
  by (simp add: push_bit_eq_mult)

lemma hash2xy_pow_accepts:
  assumes "h \<le> 2 ^ n * 2 ^ n - 1"
  shows "hash2xy h (2 ^ n) = Some (Inr (hash2xy_iter n h))"
  using assms by (simp add: hash2xy_def hash2xy_loop_pow)

lemma even_bits_per_char:
  assumes "bits_per_char \<in> {2, 4, (6::int)}"
  shows "2 * drop_bit 1 (int len * bits_per_char) = int len * bits_per_char"
    and "0 \<le> drop_bit 1 (int len * bits_per_char)"
  using assms by (auto simp: drop_bit_eq_div)

lemma hash2xy_7_4: "hash2xy 7 4 = Some (Inr (1, 2))"
proof -
  have "hash2xy_iter 2 7 = (1, 2)"
    by (simp add: eval_nat_numeral rotate_xy_eq drop_bit_eq_div Let_def)
  then show ?thesis
    using hash2xy_pow_accepts [of 7 2] by simp
qed

lemma decode_int_13: "decode_int ''0123'' ''13'' 2 = 7"
  by (simp add: decode_int_def push_bit_eq_mult)

lemma xy2hash_dim_1: "xy2hash x y 1 = 0"
  by (simp add: xy2hash_def xy2hash_loop_nonpos drop_bit_eq_div)

lemma rjust_Nil_0: "rjust [] 0 c = []"
  by (simp add: rjust_def)

lemma encode_int_1: "encode_int ''0123'' 1 2 = ''1''"
  by (simp add: encode_int_pos encode_int_nonpos drop_bit_eq_div take_bit_eq_mod)

lemma xy2hash_2_1_2: "xy2hash 2 1 2 = 1"
  by (simp add: xy2hash_def xy2hash_loop_pos xy2hash_loop_nonpos quadrant_bit_def rotate_xy_eq drop_bit_eq_div)

lemma hash2xy_1_2: "hash2xy 1 2 = Some (Inr (0, 1))"
proof -
  have "hash2xy_iter 1 1 = (0, 1)"
    by (simp add: rotate_xy_eq Let_def)
  then show ?thesis
    using hash2xy_pow_accepts [of 1 1] by simp
qed

lemma decode_int_1: "decode_int ''0123'' ''1'' 2 = 1"
  by (simp add: decode_int_def push_bit_eq_mult)

section \<open>Properties of the rounding to a double\<close>

text \<open>
  The rounding leaves every \<open>m * 2^e\<close> with \<open>|m| < 2^53\<close> and \<open>e \<ge> -1074\<close> unchanged
  (\<open>round_double_rep\<close>), it is monotone (\<open>round_double_mono\<close>) and odd
  (\<open>round_double_minus\<close>), and its value at \<open>r\<close> with \<open>2^k \<le> |r| < 2^(k+1)\<close> is the
  multiple of \<open>2^max(k-52, -1074)\<close> nearest to \<open>r\<close> (\<open>round_double_eval\<close>).
\<close>

lemma floor_log2_bounds:
  assumes "0 < r"
  shows "2 powi floor_log2 r \<le> r \<and> r < 2 powi (floor_log2 r + 1)"
proof (cases "1 \<le> r")
  case True
  let ?n = "\<lfloor>r\<rfloor>"
  have n: "0 < ?n" using True by linarith
  note b = bitlen_bounds [OF n]
  have b1: "1 \<le> bitlen ?n" using n by (simp add: bitlen_alt_def)
  have "real_of_int (2 ^ nat (bitlen ?n - 1)) \<le> real_of_int ?n" using b by (simp only: of_int_le_iff)
  then have "(2::real) ^ nat (bitlen ?n - 1) \<le> real_of_int ?n" by simp
  then have lo: "2 ^ nat (bitlen ?n - 1) \<le> r" by linarith
  have "?n + 1 \<le> 2 ^ nat (bitlen ?n)" using b by simp
  then have "real_of_int (?n + 1) \<le> real_of_int (2 ^ nat (bitlen ?n))" by (simp only: of_int_le_iff)
  then have "real_of_int ?n + 1 \<le> (2::real) ^ nat (bitlen ?n)" by simp
  then have hi: "r < 2 ^ nat (bitlen ?n)" by linarith
  show ?thesis
    using lo hi b1 True by (simp add: floor_log2_def power_int_def)
next
  case False
  let ?t = "1 / r"
  let ?c = "\<lceil>?t\<rceil>"
  have t: "1 < ?t" using assms False by simp
  then have c: "0 < ?c - 1" by linarith
  note b = bitlen_bounds [OF c]
  let ?b = "bitlen (?c - 1)"
  have b1: "1 \<le> ?b" using c by (simp add: bitlen_alt_def)
  have "real_of_int (2 ^ nat (?b - 1)) \<le> real_of_int (?c - 1)" using b by (simp only: of_int_le_iff)
  then have "(2::real) ^ nat (?b - 1) \<le> real_of_int ?c - 1" by simp
  moreover have "real_of_int ?c - 1 < ?t" by linarith
  ultimately have lo: "2 ^ nat (?b - 1) < ?t" by linarith
  have "?c \<le> 2 ^ nat ?b" using b by simp
  then have "real_of_int ?c \<le> real_of_int (2 ^ nat ?b)" by (simp only: of_int_le_iff)
  then have "real_of_int ?c \<le> (2::real) ^ nat ?b" by simp
  moreover have "?t \<le> real_of_int ?c" by linarith
  ultimately have hi: "?t \<le> 2 ^ nat ?b" by linarith
  have r1: "r < 1 / 2 ^ nat (?b - 1)"
    using lo assms by (simp add: field_simps)
  have r2: "1 / 2 ^ nat ?b \<le> r"
    using hi assms by (simp add: field_simps)
  have e1: "2 powi (- ?b) = (1::real) / 2 ^ nat ?b"
    using b1 by (simp add: power_int_def field_simps)
  have e2: "2 powi (1 - ?b) = (1::real) / 2 ^ nat (?b - 1)"
    using b1 by (simp add: power_int_def field_simps)
  show ?thesis
    using r1 r2 False by (simp add: floor_log2_def e1 e2)
qed

lemma floor_log2_eqI:
  assumes "2 powi k \<le> r" "r < 2 powi (k + 1)"
  shows "floor_log2 r = k"
proof -
  have r: "0 < r" using assms(1) by (rule less_le_trans [rotated]) simp
  note b = floor_log2_bounds [OF r]
  let ?f = "floor_log2 r"
  have "\<not> ?f < k"
  proof
    assume "?f < k"
    then have "(2::real) powi (?f + 1) \<le> 2 powi k" by (intro power_int_increasing) simp_all
    then show False using b assms(1) by linarith
  qed
  moreover have "\<not> k < ?f"
  proof
    assume "k < ?f"
    then have "(2::real) powi (k + 1) \<le> 2 powi ?f" by (intro power_int_increasing) simp_all
    then show False using b assms(2) by linarith
  qed
  ultimately show ?thesis by linarith
qed

lemma floor_log2_mono:
  assumes "0 < a" "a \<le> b"
  shows "floor_log2 a \<le> floor_log2 b"
proof (rule ccontr)
  assume "\<not> floor_log2 a \<le> floor_log2 b"
  then have "(2::real) powi (floor_log2 b + 1) \<le> 2 powi floor_log2 a"
    by (intro power_int_increasing) simp_all
  moreover have "b < 2 powi (floor_log2 b + 1)" "2 powi floor_log2 a \<le> a"
    using floor_log2_bounds [of a] floor_log2_bounds [of b] assms by simp_all
  ultimately show False using assms(2) by linarith
qed

lemma round_half_even_of_int [simp]: "round_half_even (real_of_int n) = n"
  by (simp add: round_half_even_def)

lemma round_half_even_cases:
  "round_half_even z = \<lfloor>z\<rfloor> \<and> z - real_of_int \<lfloor>z\<rfloor> \<le> 1 / 2 \<or>
   round_half_even z = \<lfloor>z\<rfloor> + 1 \<and> 1 / 2 \<le> z - real_of_int \<lfloor>z\<rfloor>"
  by (auto simp: round_half_even_def Let_def)

lemma round_half_even_mono:
  assumes "a \<le> b"
  shows "round_half_even a \<le> round_half_even b"
proof (cases "\<lfloor>a\<rfloor> = \<lfloor>b\<rfloor>")
  case True
  then show ?thesis
    using assms by (auto simp: round_half_even_def Let_def)
next
  case False
  then have "\<lfloor>a\<rfloor> + 1 \<le> \<lfloor>b\<rfloor>" using floor_mono [OF assms] by linarith
  then show ?thesis
    using round_half_even_cases [of a] round_half_even_cases [of b] by linarith
qed

lemma round_half_even_minus: "round_half_even (- z) = - round_half_even z"
proof (cases "z = real_of_int \<lfloor>z\<rfloor>")
  case True
  then have "- z = real_of_int (- \<lfloor>z\<rfloor>)" by simp
  then have "round_half_even (- z) = - \<lfloor>z\<rfloor>" by (simp only: round_half_even_of_int)
  moreover have "round_half_even z = \<lfloor>z\<rfloor>" using True by (metis round_half_even_of_int)
  ultimately show ?thesis by simp
next
  case False
  then have a: "real_of_int \<lfloor>z\<rfloor> < z" using of_int_floor_le [of z] by linarith
  have b: "z < real_of_int \<lfloor>z\<rfloor> + 1" by linarith
  have c: "real_of_int (- \<lfloor>z\<rfloor> - 1) = - real_of_int \<lfloor>z\<rfloor> - 1" by simp
  have "real_of_int (- \<lfloor>z\<rfloor> - 1) \<le> - z" "- z < real_of_int (- \<lfloor>z\<rfloor> - 1) + 1"
    using a b c by linarith+
  then have f: "\<lfloor>- z\<rfloor> = - \<lfloor>z\<rfloor> - 1"
    by (rule floor_unique)
  show ?thesis
    unfolding round_half_even_def Let_def f by auto
qed

lemma round_half_even_nonneg: "0 \<le> z \<Longrightarrow> 0 \<le> round_half_even z"
  using round_half_even_mono [of 0 z] round_half_even_of_int [of 0] by simp

lemma double_exp_minus [simp]: "double_exp (- r) = double_exp r"
  by (simp add: double_exp_def)

lemma round_double_0 [simp]: "round_double 0 = 0"
  by (simp add: round_double_def)

lemma round_double_minus: "round_double (- r) = - round_double r"
  by (simp add: round_double_def round_half_even_minus)

lemma two_powi_pos: "0 < (2::real) powi e"
  by simp

lemma floor_log2_less:
  assumes "0 < r" "r < 2 powi k"
  shows "floor_log2 r < k"
proof (rule ccontr)
  assume "\<not> floor_log2 r < k"
  then have "(2::real) powi k \<le> 2 powi floor_log2 r"
    by (intro power_int_increasing) simp_all
  then show False using floor_log2_bounds [OF assms(1)] assms(2) by linarith
qed

lemma round_double_grid:
  assumes "r = real_of_int n * 2 powi double_exp r"
  shows "round_double r = r"
proof (cases "r = 0")
  case True
  then show ?thesis by simp
next
  case False
  have "r / 2 powi double_exp r = real_of_int n"
    using assms by (metis nonzero_mult_div_cancel_right power_int_eq_0_iff zero_neq_numeral)
  then show ?thesis
    using False assms by (simp add: round_double_def)
qed

lemma round_double_rep:
  assumes "\<bar>m\<bar> < 2 ^ 53" "- 1074 \<le> e"
  shows "round_double (real_of_int m * 2 powi e) = real_of_int m * 2 powi e"
proof (cases "m = 0")
  case True
  then show ?thesis by simp
next
  case False
  let ?r = "real_of_int m * 2 powi e"
  let ?u = "double_exp ?r"
  have a: "\<bar>?r\<bar> = real_of_int \<bar>m\<bar> * 2 powi e" by (simp add: abs_mult)
  have pos: "0 < \<bar>?r\<bar>" using False by simp
  have "real_of_int \<bar>m\<bar> < 2 ^ 53" using assms(1) by (metis of_int_less_numeral_power_cancel_iff)
  then have "\<bar>?r\<bar> < 2 ^ 53 * 2 powi e"
    unfolding a by (intro mult_strict_right_mono) simp_all
  also have "\<dots> = 2 powi (53 + e)" by (simp add: power_int_add)
  finally have "floor_log2 \<bar>?r\<bar> < 53 + e" by (rule floor_log2_less [OF pos])
  then have u: "?u \<le> e" using assms(2) by (simp add: double_exp_def)
  then have "(2::real) powi e = 2 powi (e - ?u) * 2 powi ?u"
    by (simp add: power_int_add [symmetric])
  also have "(2::real) powi (e - ?u) = real_of_int (2 ^ nat (e - ?u))"
    using u by (simp add: power_int_def)
  finally have "?r = real_of_int (m * 2 ^ nat (e - ?u)) * 2 powi ?u" by simp
  then show ?thesis by (rule round_double_grid)
qed

lemma round_double_eval:
  assumes "2 powi k \<le> \<bar>r\<bar>" "\<bar>r\<bar> < 2 powi (k + 1)"
  shows "round_double r =
    real_of_int (round_half_even (r / 2 powi max (k - 52) (- 1074))) * 2 powi max (k - 52) (- 1074)"
proof -
  have "floor_log2 \<bar>r\<bar> = k" using assms by (rule floor_log2_eqI)
  moreover have "r \<noteq> 0" using assms(1) less_le_trans [OF two_powi_pos assms(1)] by auto
  ultimately show ?thesis by (simp add: round_double_def double_exp_def)
qed

lemma round_double_nonneg: "0 \<le> r \<Longrightarrow> 0 \<le> round_double r"
  by (simp add: round_double_def round_half_even_nonneg)

lemma round_double_mono_pos:
  assumes "0 < a" "a \<le> b"
  shows "round_double a \<le> round_double b"
proof -
  let ?ua = "double_exp a" and ?ub = "double_exp b"
  have b: "0 < b" using assms by linarith
  have fl: "floor_log2 a \<le> floor_log2 b" using assms by (rule floor_log2_mono)
  have ra: "round_double a = real_of_int (round_half_even (a / 2 powi ?ua)) * 2 powi ?ua"
    using assms(1) by (simp add: round_double_def)
  have rb: "round_double b = real_of_int (round_half_even (b / 2 powi ?ub)) * 2 powi ?ub"
    using b by (simp add: round_double_def)
  have absa: "\<bar>a\<bar> = a" "\<bar>b\<bar> = b" using assms(1) b by simp_all
  show ?thesis
  proof (cases "?ua = ?ub")
    case True
    have "a / 2 powi ?ub \<le> b / 2 powi ?ub"
      using assms(2) by (intro divide_right_mono) simp_all
    then have "round_half_even (a / 2 powi ?ub) \<le> round_half_even (b / 2 powi ?ub)"
      by (rule round_half_even_mono)
    then have "real_of_int (round_half_even (a / 2 powi ?ub)) * 2 powi ?ub \<le>
        real_of_int (round_half_even (b / 2 powi ?ub)) * 2 powi ?ub"
      by (intro mult_right_mono) simp_all
    then show ?thesis by (simp only: ra rb True)
  next
    case False
    let ?kb = "floor_log2 b"
    have lt: "?ua < ?ub" using False fl unfolding double_exp_def absa by linarith
    then have ub: "?ub = ?kb - 52" unfolding double_exp_def absa by linarith
    have fa: "floor_log2 a + 1 \<le> ?kb" using lt ub unfolding double_exp_def absa by linarith
    have kua: "?ua \<le> ?kb" using lt ub by linarith
    let ?P = "(2::real) powi ?kb"
    have P1: "?P = real_of_int (2 ^ 52) * 2 powi ?ub"
      unfolding ub by (simp add: power_int_diff)
    have "?P \<le> b" using floor_log2_bounds [OF b] by simp
    then have "?P / 2 powi ?ub \<le> b / 2 powi ?ub"
      by (intro divide_right_mono) simp_all
    moreover have "?P / 2 powi ?ub = real_of_int (2 ^ 52)"
      unfolding P1 by simp
    ultimately have "round_half_even (real_of_int (2 ^ 52)) \<le> round_half_even (b / 2 powi ?ub)"
      by (metis round_half_even_mono)
    then have "real_of_int (2 ^ 52) \<le> real_of_int (round_half_even (b / 2 powi ?ub))"
      by (simp only: round_half_even_of_int of_int_le_iff)
    then have "real_of_int (2 ^ 52) * 2 powi ?ub \<le>
        real_of_int (round_half_even (b / 2 powi ?ub)) * 2 powi ?ub"
      by (intro mult_right_mono) simp_all
    then have hi: "?P \<le> round_double b" by (simp only: P1 rb)
    have P2: "?P = real_of_int (2 ^ nat (?kb - ?ua)) * 2 powi ?ua"
    proof -
      have "(2::real) powi ?kb = 2 powi (?kb - ?ua) * 2 powi ?ua"
        by (simp add: power_int_add [symmetric])
      also have "(2::real) powi (?kb - ?ua) = real_of_int (2 ^ nat (?kb - ?ua))"
        using kua by (simp add: power_int_def)
      finally show ?thesis .
    qed
    have "a < 2 powi (floor_log2 a + 1)" using floor_log2_bounds [OF assms(1)] by simp
    also have "\<dots> \<le> ?P" using fa by (intro power_int_increasing) simp_all
    finally have "a / 2 powi ?ua \<le> ?P / 2 powi ?ua"
      by (intro divide_right_mono) simp_all
    moreover have "?P / 2 powi ?ua = real_of_int (2 ^ nat (?kb - ?ua))"
      by (subst P2) simp
    ultimately have "round_half_even (a / 2 powi ?ua) \<le> round_half_even (real_of_int (2 ^ nat (?kb - ?ua)))"
      by (metis round_half_even_mono)
    then have "real_of_int (round_half_even (a / 2 powi ?ua)) \<le> real_of_int (2 ^ nat (?kb - ?ua))"
      by (simp only: round_half_even_of_int of_int_le_iff)
    then have "real_of_int (round_half_even (a / 2 powi ?ua)) * 2 powi ?ua \<le>
        real_of_int (2 ^ nat (?kb - ?ua)) * 2 powi ?ua"
      by (intro mult_right_mono) simp_all
    then have lo: "round_double a \<le> ?P" by (simp only: ra P2 [symmetric])
    show ?thesis using lo hi by linarith
  qed
qed

lemma round_double_mono:
  assumes "a \<le> b"
  shows "round_double a \<le> round_double b"
proof -
  consider "0 < a" | "a \<le> 0" "0 \<le> b" | "b < 0" by linarith
  then show ?thesis
  proof cases
    case 1
    then show ?thesis using assms by (rule round_double_mono_pos)
  next
    case 2
    have "0 \<le> round_double (- a)" using 2(1) by (intro round_double_nonneg) simp
    then have "round_double a \<le> 0" by (simp add: round_double_minus)
    moreover have "0 \<le> round_double b" using 2(2) by (rule round_double_nonneg)
    ultimately show ?thesis by linarith
  next
    case 3
    have "round_double (- b) \<le> round_double (- a)"
      using 3 assms by (intro round_double_mono_pos) simp_all
    then show ?thesis by (simp add: round_double_minus)
  qed
qed

section \<open>Properties of the float operations\<close>

lemma round_double_int: "\<bar>n\<bar> < 2 ^ 53 \<Longrightarrow> round_double (real_of_int n) = real_of_int n"
  using round_double_rep [of n 0] by simp

lemma round_double_scaled:
  assumes "\<bar>m\<bar> < 2 ^ 53" "L \<le> 1074 + c"
  shows "round_double (real_of_int m * 2 ^ c / 2 ^ L) = real_of_int m * 2 ^ c / 2 ^ L"
proof -
  have "(2::real) powi (int c - int L) = 2 ^ c / 2 ^ L"
    by (simp add: power_int_diff)
  then have "real_of_int m * 2 ^ c / 2 ^ L = real_of_int m * 2 powi (int c - int L)"
    by simp
  moreover have "round_double (real_of_int m * 2 powi (int c - int L)) =
      real_of_int m * 2 powi (int c - int L)"
    using assms by (intro round_double_rep) simp_all
  ultimately show ?thesis by simp
qed

lemma round_double_consts [simp]:
  "round_double 1 = 1" "round_double 2 = 2" "round_double 45 = 45" "round_double 90 = 90"
  "round_double 180 = 180" "round_double 360 = 360"
  "round_double (- 45) = - 45" "round_double (- 90) = - 90" "round_double (- 180) = - 180"
  "round_double (1 / 2) = 1 / 2"
  using round_double_int [of 1] round_double_int [of 2] round_double_int [of 45]
    round_double_int [of 90] round_double_int [of 180] round_double_int [of 360]
    round_double_int [of "- 45"] round_double_int [of "- 90"] round_double_int [of "- 180"]
    round_double_scaled [of 1 1 0]
  by simp_all

lemma round_double_between:
  assumes "round_double lo = lo" "round_double hi = hi" "lo \<le> r" "r \<le> hi"
  shows "lo \<le> round_double r \<and> round_double r \<le> hi"
  using round_double_mono [OF assms(3)] round_double_mono [OF assms(4)] assms(1,2) by simp

lemma to_double_finite: "\<bar>round_double r\<bar> < 2 ^ 1024 \<Longrightarrow> to_double r = Finite (round_double r)"
  by (simp add: to_double_def Let_def)

lemma to_double_small: "\<bar>round_double r\<bar> \<le> 360 \<Longrightarrow> to_double r = Finite (round_double r)"
  by (rule to_double_finite) (rule le_less_trans, assumption, simp)

lemma to_double_between:
  assumes "round_double lo = lo" "round_double hi = hi" "lo \<le> r" "r \<le> hi" "- 360 \<le> lo" "hi \<le> 360"
  shows "to_double r = Finite (round_double r)"
proof -
  have "lo \<le> round_double r \<and> round_double r \<le> hi"
    using assms(1-4) by (rule round_double_between)
  then have "\<bar>round_double r\<bar> \<le> 360" using assms(5,6) by linarith
  then show ?thesis by (rule to_double_small)
qed

lemma and_then_Inr [simp]: "and_then (Inr v) f = f v"
  by (simp add: and_then_def)

lemma and_then_Inl [simp]: "and_then (Inl e) f = Inl e"
  by (simp add: and_then_def)

lemma float_mul_Finite [simp]: "float_mul (Finite a) (Finite b) = to_double (a * b)"
  by (simp add: float_mul_def)

lemma float_sub_Finite [simp]: "float_sub (Finite a) (Finite b) = to_double (a - b)"
  by (simp add: float_sub_def)

lemma float_div_Finite [simp]:
  "b \<noteq> 0 \<Longrightarrow> float_div (Finite a) (Finite b) = Inr (to_double (a / b))"
  by (simp add: float_div_def)

section \<open>Properties of the error margin\<close>

lemma unit_fraction_range:
  "0 \<le> round_double (1 / 2 ^ L) \<and> round_double (1 / 2 ^ L) \<le> 1"
  by (rule round_double_between [of 0 1, simplified]) simp_all

lemma dim_error_finite:
  assumes "0 \<le> level"
  shows "dim_error level =
     Inr (Finite (round_double (180 * round_double (1 / 2 ^ nat level))),
          Finite (round_double (90 * round_double (1 / 2 ^ nat level))))"
    and "0 \<le> round_double (180 * round_double (1 / 2 ^ nat level)) \<and>
         round_double (180 * round_double (1 / 2 ^ nat level)) \<le> 180"
    and "0 \<le> round_double (90 * round_double (1 / 2 ^ nat level)) \<and>
         round_double (90 * round_double (1 / 2 ^ nat level)) \<le> 90"
proof -
  let ?u = "round_double (1 / 2 ^ nat level)"
  note u = unit_fraction_range [of "nat level"]
  have d: "int_true_divide 1 (push_bit (nat level) 1) = Inr (Finite ?u)"
    using u by (simp add: int_true_divide_def push_bit_eq_mult to_double_small)
  show a: "0 \<le> round_double (180 * ?u) \<and> round_double (180 * ?u) \<le> 180"
    using u by (intro round_double_between [of 0 180, simplified]) simp_all
  show b: "0 \<le> round_double (90 * ?u) \<and> round_double (90 * ?u) \<le> 90"
    using u by (intro round_double_between [of 0 90, simplified]) simp_all
  show "dim_error level = Inr (Finite (round_double (180 * ?u)), Finite (round_double (90 * ?u)))"
    unfolding dim_error_def d using assms a b by (simp add: to_double_small)
qed

section \<open>Properties of the inverse quantizer\<close>

lemma cell_fraction_range:
  assumes "0 \<le> x" "x < dm"
  shows "0 \<le> round_double (real_of_int x / real_of_int dm) \<and>
         round_double (real_of_int x / real_of_int dm) \<le> 1"
proof -
  have "0 \<le> real_of_int x / real_of_int dm" "real_of_int x / real_of_int dm \<le> 1"
    using assms by simp_all
  then show ?thesis
    by (intro round_double_between [of 0 1, simplified]) simp_all
qed

lemma int2coord_axis:
  assumes "0 \<le> x" "x < dm" "(w::real) = 90 \<or> w = 180"
  defines "q \<equiv> round_double (real_of_int x / real_of_int dm)"
  shows "int_true_divide x dm = Inr (Finite q)"
    and "float_sub (float_mul (Finite q) (Finite (2 * w))) (Finite w) =
         Finite (round_double (round_double (q * (2 * w)) - w))"
    and "- w \<le> round_double (round_double (q * (2 * w)) - w) \<and>
         round_double (round_double (q * (2 * w)) - w) \<le> w"
proof -
  have q: "0 \<le> q \<and> q \<le> 1" unfolding q_def using assms(1,2) by (rule cell_fraction_range)
  have dm: "dm \<noteq> 0" using assms(1,2) by linarith
  show "int_true_divide x dm = Inr (Finite q)"
    using q dm by (simp add: int_true_divide_def q_def [symmetric] to_double_small)
  have w: "round_double w = w" "round_double (2 * w) = 2 * w" "round_double (- w) = - w"
    "0 < w" "w \<le> 180"
    using assms(3) by auto
  have "0 \<le> q * (2 * w)" "q * (2 * w) \<le> 1 * (2 * w)"
    using q w(4) by (simp_all add: mult_right_mono)
  then have p: "0 \<le> round_double (q * (2 * w)) \<and> round_double (q * (2 * w)) \<le> 2 * w"
    using w(2) by (intro round_double_between [of 0 "2 * w", simplified]) simp_all
  then have m: "float_mul (Finite q) (Finite (2 * w)) = Finite (round_double (q * (2 * w)))"
    using w(5) by (simp add: to_double_small)
  show r: "- w \<le> round_double (round_double (q * (2 * w)) - w) \<and>
      round_double (round_double (q * (2 * w)) - w) \<le> w"
    using p w(1,3) by (intro round_double_between) simp_all
  have "\<bar>round_double (round_double (q * (2 * w)) - w)\<bar> \<le> 360"
    using r w(5) by linarith
  then show "float_sub (float_mul (Finite q) (Finite (2 * w))) (Finite w) =
      Finite (round_double (round_double (q * (2 * w)) - w))"
    unfolding m by (simp add: to_double_small)
qed

lemma int2coord_grid:
  assumes "0 \<le> x" "x < dm" "0 \<le> y" "y < dm"
  shows "int2coord x y dm =
     Inr (Finite (round_double (round_double (round_double (real_of_int x / real_of_int dm) * 360) - 180)),
          Finite (round_double (round_double (round_double (real_of_int y / real_of_int dm) * 180) - 90)))"
proof -
  have dm: "1 \<le> dm" using assms(1,2) by linarith
  have ax: "float_sub (float_mul (Finite (round_double (real_of_int x / real_of_int dm)))
      (Finite 360)) (Finite 180) =
      Finite (round_double (round_double (round_double (real_of_int x / real_of_int dm) * 360) - 180))"
    using int2coord_axis(2) [OF assms(1,2), of 180] by simp
  have ay: "float_sub (float_mul (Finite (round_double (real_of_int y / real_of_int dm)))
      (Finite 180)) (Finite 90) =
      Finite (round_double (round_double (round_double (real_of_int y / real_of_int dm) * 180) - 90))"
    using int2coord_axis(2) [OF assms(3,4), of 90] by simp
  have dx: "int_true_divide x dm = Inr (Finite (round_double (real_of_int x / real_of_int dm)))"
    using int2coord_axis(1) [OF assms(1,2), of 180] by simp
  have dy: "int_true_divide y dm = Inr (Finite (round_double (real_of_int y / real_of_int dm)))"
    using int2coord_axis(1) [OF assms(3,4), of 90] by simp
  show ?thesis
    unfolding int2coord_def dx dy and_then_Inr Let_def ax ay
    using dm assms(2,4) by simp
qed

section \<open>Evaluations of the rounding\<close>

lemma round_half_even_near:
  assumes "\<bar>d\<bar> < 1 / 2"
  shows "round_half_even (real_of_int n + d) = n"
proof (cases "0 \<le> d")
  case True
  then have f: "\<lfloor>real_of_int n + d\<rfloor> = n" using assms by (intro floor_unique) simp_all
  show ?thesis using assms True by (simp add: round_half_even_def f Let_def)
next
  case False
  then have f: "\<lfloor>real_of_int n + d\<rfloor> = n - 1" using assms by (intro floor_unique) simp_all
  show ?thesis using assms False by (simp add: round_half_even_def f Let_def)
qed

lemma round_half_even_half:
  "round_half_even (real_of_int n + 1 / 2) = (if even n then n else n + 1)"
proof -
  have f: "\<lfloor>real_of_int n + 1 / 2\<rfloor> = n" by (intro floor_unique) simp_all
  show ?thesis by (simp add: round_half_even_def f Let_def)
qed

lemma round_double_near:
  assumes "2 powi k \<le> \<bar>r\<bar>" "\<bar>r\<bar> < 2 powi (k + 1)" "e = max (k - 52) (- 1074)"
    and "r = (real_of_int n + d) * 2 powi e" "\<bar>d\<bar> < 1 / 2"
  shows "round_double r = real_of_int n * 2 powi e"
proof -
  have "r / 2 powi e = real_of_int n + d" using assms(4) by simp
  then show ?thesis
    using round_double_eval [OF assms(1,2)] assms(3,5) by (simp add: round_half_even_near)
qed

lemma round_double_tie:
  assumes "2 powi k \<le> \<bar>r\<bar>" "\<bar>r\<bar> < 2 powi (k + 1)" "e = max (k - 52) (- 1074)"
    and "r = (real_of_int n + 1 / 2) * 2 powi e"
  shows "round_double r = real_of_int (if even n then n else n + 1) * 2 powi e"
proof -
  have "r / 2 powi e = real_of_int n + 1 / 2" using assms(4) by simp
  then show ?thesis
    using round_double_eval [OF assms(1,2)] assms(3) by (simp only: round_half_even_half)
qed

lemma round_double_tie_360: "round_double (360 - 1 / 2 ^ 45) = 360"
  using round_double_tie [of 8 "360 - 1 / 2 ^ 45" "- 44" "360 * 2 ^ 44 - 1"]
  by (simp add: power_int_minus)

lemma round_double_corner_180: "round_double (- 180 + 180 * (1 / 2 ^ 54)) = - 180"
  using round_double_near [of 7 "- 180 + 180 * (1 / 2 ^ 54)" "- 45" "- 180 * 2 ^ 45" "45 / 128"]
  by (simp add: power_int_minus)

lemma round_double_corner_90: "round_double (- 90 + 90 * (1 / 2 ^ 54)) = - 90"
  using round_double_near [of 6 "- 90 + 90 * (1 / 2 ^ 54)" "- 46" "- 90 * 2 ^ 46" "45 / 128"]
  by (simp add: power_int_minus)

lemma round_double_tie_180: "round_double (- 180 + 180 * (1 / 2 ^ 48)) = - 180 + 22 / 2 ^ 45"
  using round_double_tie [of 7 "- 180 + 180 * (1 / 2 ^ 48)" "- 45" "- 180 * 2 ^ 45 + 22"]
  by (simp add: power_int_minus)

lemma round_double_tie_90: "round_double (- 90 + 90 * (1 / 2 ^ 48)) = - 90 + 22 / 2 ^ 46"
  using round_double_tie [of 6 "- 90 + 90 * (1 / 2 ^ 48)" "- 46" "- 90 * 2 ^ 46 + 22"]
  by (simp add: power_int_minus)

lemma round_double_underflow: "round_double (1 / 2 ^ 1075) = 0"
  using round_double_tie [of "- 1075" "1 / 2 ^ 1075" "- 1074" 0]
  by (simp add: power_int_minus)

lemma round_double_pow: "round_double (2 ^ n) = 2 ^ n"
  using round_double_rep [of 1 "int n"] by simp

lemma int_to_float_pow: "n \<le> 1023 \<Longrightarrow> int_to_float (2 ^ n) = Inr (Finite (2 ^ n))"
proof -
  assume "n \<le> 1023"
  then have "(2::real) ^ n \<le> 2 ^ 1023" by (intro power_increasing) simp_all
  then have "\<bar>round_double (2 ^ n)\<bar> < 2 ^ 1024" by (simp add: round_double_pow)
  then show ?thesis
    by (simp add: int_to_float_def to_double_finite round_double_pow)
qed

lemma int_to_float_overflow: "int_to_float (2 ^ 1024) = Inl OverflowError"
proof -
  have r: "round_double (real_of_int (2 ^ 1024)) = 2 ^ 1024"
    using round_double_pow [of 1024] by (simp only: of_int_power of_int_numeral)
  have "to_double (real_of_int (2 ^ 1024)) = PInf"
    unfolding to_double_def Let_def r by simp
  then show ?thesis
    by (simp only: int_to_float_def pyfloat.case)
qed

lemma float_le_FiniteD:
  assumes "float_le (Finite a) x" "float_le x (Finite b)"
  shows "\<exists>r. x = Finite r \<and> a \<le> r \<and> r \<le> b"
  using assms by (cases x) simp_all

section \<open>Exact results\<close>

text \<open>
  Up to level 1074 no operation of \<open>_dim_error\<close> rounds, and up to level 47 no operation
  of \<open>_int2coord\<close> and no sum of \<open>decode_exactly\<close> does: every intermediate value is
  \<open>45 * m * 2^c / 2^level\<close> with \<open>|m| \<le> 2^level\<close>, and \<open>45 * 2^47 < 2^53\<close>.
\<close>

lemma dim_error_low:
  assumes "0 \<le> level" "level \<le> 1074"
  shows "dim_error level = Inr (Finite (180 * (1 / 2 ^ nat level)), Finite (90 * (1 / 2 ^ nat level)))"
proof -
  let ?n = "nat level"
  have n: "?n \<le> 1074" using assms by simp
  have u: "round_double (1 / 2 ^ ?n) = 1 / 2 ^ ?n"
    using round_double_scaled [of 1 ?n 0] n by simp
  have a: "round_double (180 * (1 / 2 ^ ?n)) = 180 * (1 / 2 ^ ?n)"
    using round_double_scaled [of 45 ?n 2] n by simp
  have b: "round_double (90 * (1 / 2 ^ ?n)) = 90 * (1 / 2 ^ ?n)"
    using round_double_scaled [of 45 ?n 1] n by simp
  show ?thesis
    unfolding dim_error_finite(1) [OF assms(1)] u a b ..
qed

lemma dim_error_1075: "dim_error 1075 = Inr (Finite 0, Finite 0)"
proof -
  have "dim_error 1075 =
      Inr (Finite (round_double (180 * round_double (1 / 2 ^ 1075))),
           Finite (round_double (90 * round_double (1 / 2 ^ 1075))))"
    using dim_error_finite(1) [of 1075, OF zero_le_numeral] by (simp only: nat_numeral)
  then show ?thesis
    by (simp only: round_double_underflow mult_zero_right round_double_0)
qed

lemma cell_exact:
  assumes "0 \<le> x" "x < 2 ^ n" "n \<le> 47" "c \<le> 2"
  shows "round_double (real_of_int x / 2 ^ n) = real_of_int x / 2 ^ n"
    and "round_double (real_of_int x / 2 ^ n * (2 * (45 * 2 ^ c))) = real_of_int x / 2 ^ n * (2 * (45 * 2 ^ c))"
    and "round_double (real_of_int x / 2 ^ n * (2 * (45 * 2 ^ c)) - 45 * 2 ^ c) =
         real_of_int x / 2 ^ n * (2 * (45 * 2 ^ c)) - 45 * 2 ^ c"
    and "round_double (real_of_int x / 2 ^ n * (2 * (45 * 2 ^ c)) - 45 * 2 ^ c + 45 * 2 ^ c * (1 / 2 ^ n)) =
         (real_of_int x + 1 / 2) / 2 ^ n * (2 * (45 * 2 ^ c)) - 45 * 2 ^ c"
proof -
  have p: "(2::int) ^ n \<le> 2 ^ 47" using assms(3) by (intro power_increasing) simp_all
  have l: "n \<le> 1074 + 0" "n \<le> 1074 + c" "n \<le> 1074 + (c + 1)" using assms(3) by simp_all
  have m1: "\<bar>x\<bar> < 2 ^ 53" using assms(1,2) p by simp
  have m2: "\<bar>45 * x\<bar> < 2 ^ 53" using assms(1,2) p by simp
  have m3: "\<bar>45 * (2 * x - 2 ^ n)\<bar> < 2 ^ 53" using assms(1,2) p by simp
  have m4: "\<bar>45 * (2 * x - 2 ^ n + 1)\<bar> < 2 ^ 53" using assms(1,2) p by simp
  show "round_double (real_of_int x / 2 ^ n) = real_of_int x / 2 ^ n"
    using round_double_scaled [OF m1 l(1)] by simp
  have e2: "real_of_int (45 * x) * 2 ^ (c + 1) / 2 ^ n = real_of_int x / 2 ^ n * (2 * (45 * 2 ^ c))"
    by simp
  show "round_double (real_of_int x / 2 ^ n * (2 * (45 * 2 ^ c))) =
      real_of_int x / 2 ^ n * (2 * (45 * 2 ^ c))"
    using round_double_scaled [OF m2 l(3)] unfolding e2 .
  have e3: "real_of_int (45 * (2 * x - 2 ^ n)) * 2 ^ c / 2 ^ n =
      real_of_int x / 2 ^ n * (2 * (45 * 2 ^ c)) - 45 * 2 ^ c"
    by (simp add: field_simps)
  show "round_double (real_of_int x / 2 ^ n * (2 * (45 * 2 ^ c)) - 45 * 2 ^ c) =
      real_of_int x / 2 ^ n * (2 * (45 * 2 ^ c)) - 45 * 2 ^ c"
    using round_double_scaled [OF m3 l(2)] unfolding e3 .
  have e: "real_of_int (45 * (2 * x - 2 ^ n + 1)) * 2 ^ c / 2 ^ n =
      real_of_int x / 2 ^ n * (2 * (45 * 2 ^ c)) - 45 * 2 ^ c + 45 * 2 ^ c * (1 / 2 ^ n)"
    by (simp add: field_simps)
  have f: "real_of_int (45 * (2 * x - 2 ^ n + 1)) * 2 ^ c / 2 ^ n =
      (real_of_int x + 1 / 2) / 2 ^ n * (2 * (45 * 2 ^ c)) - 45 * 2 ^ c"
    by (simp add: field_simps)
  show "round_double (real_of_int x / 2 ^ n * (2 * (45 * 2 ^ c)) - 45 * 2 ^ c + 45 * 2 ^ c * (1 / 2 ^ n)) =
      (real_of_int x + 1 / 2) / 2 ^ n * (2 * (45 * 2 ^ c)) - 45 * 2 ^ c"
    using round_double_scaled [OF m4 l(2)] unfolding e [symmetric] f [symmetric] .
qed

lemma lng_exact:
  assumes "0 \<le> x" "x < 2 ^ n" "n \<le> 47"
  shows "round_double (real_of_int x / 2 ^ n) = real_of_int x / 2 ^ n"
    and "round_double (real_of_int x / 2 ^ n * 360) = real_of_int x / 2 ^ n * 360"
    and "round_double (real_of_int x / 2 ^ n * 360 - 180) = real_of_int x / 2 ^ n * 360 - 180"
    and "round_double (real_of_int x / 2 ^ n * 360 - 180 + 180 * (1 / 2 ^ n)) =
         (real_of_int x + 1 / 2) / 2 ^ n * 360 - 180"
  using cell_exact [OF assms, of 2] by simp_all

lemma lat_exact:
  assumes "0 \<le> y" "y < 2 ^ n" "n \<le> 47"
  shows "round_double (real_of_int y / 2 ^ n) = real_of_int y / 2 ^ n"
    and "round_double (real_of_int y / 2 ^ n * 180) = real_of_int y / 2 ^ n * 180"
    and "round_double (real_of_int y / 2 ^ n * 180 - 90) = real_of_int y / 2 ^ n * 180 - 90"
    and "round_double (real_of_int y / 2 ^ n * 180 - 90 + 90 * (1 / 2 ^ n)) =
         (real_of_int y + 1 / 2) / 2 ^ n * 180 - 90"
  using cell_exact [OF assms, of 1] by simp_all

lemma hash2xy_iter_zero: "hash2xy_iter n 0 = (0, 0)"
  by (induction n) (simp_all add: rotate_xy_eq Let_def)

section \<open>Properties of the forward quantizer\<close>

text \<open>
  For a valid coordinate and \<open>dim = 2^n\<close> with \<open>n \<le> 1023\<close> no operation of \<open>_coord2int\<close>
  raises, and the result is in \<open>[0, dim]\<close>, the upper end included.
\<close>

lemma coord2int_axis:
  assumes "- w \<le> c" "c \<le> w" "w = 90 \<or> w = 180" "n \<le> 1023"
  defines "q \<equiv> round_double (round_double (c + w) / (2 * w))"
  shows "float_div (float_add (Finite c) (Finite w)) (Finite (2 * w)) = Inr (Finite q)"
    and "float_mul (Finite q) (Finite (2 ^ n)) = Finite (round_double (q * 2 ^ n))"
    and "0 \<le> \<lfloor>round_double (q * 2 ^ n)\<rfloor> \<and> \<lfloor>round_double (q * 2 ^ n)\<rfloor> \<le> 2 ^ n"
proof -
  have w: "round_double (2 * w) = 2 * w" "0 < w" "w \<le> 180"
    using assms(3) by auto
  have s: "0 \<le> round_double (c + w) \<and> round_double (c + w) \<le> 2 * w"
    using assms(1,2) w(1) by (intro round_double_between) simp_all
  then have a: "float_add (Finite c) (Finite w) = Finite (round_double (c + w))"
    using w(3) by (simp add: to_double_small)
  have "0 \<le> round_double (c + w) / (2 * w)" "round_double (c + w) / (2 * w) \<le> 1"
    using s w(2) by simp_all
  then have q: "0 \<le> q \<and> q \<le> 1"
    unfolding q_def by (intro round_double_between [of 0 1, simplified]) simp_all
  show "float_div (float_add (Finite c) (Finite w)) (Finite (2 * w)) = Inr (Finite q)"
    unfolding a using w(2) q by (simp add: q_def [symmetric] to_double_small)
  have "0 \<le> q * 2 ^ n" "q * 2 ^ n \<le> 1 * 2 ^ n"
    using q by (simp_all add: mult_right_mono)
  then have p: "0 \<le> round_double (q * 2 ^ n) \<and> round_double (q * 2 ^ n) \<le> 2 ^ n"
    by (intro round_double_between) (simp_all add: round_double_pow)
  have "(2::real) ^ n \<le> 2 ^ 1023" using assms(4) by (intro power_increasing) simp_all
  then have "\<bar>round_double (q * 2 ^ n)\<bar> < 2 ^ 1024" using p by simp
  then show "float_mul (Finite q) (Finite (2 ^ n)) = Finite (round_double (q * 2 ^ n))"
    by (simp add: to_double_finite)
  have "\<lfloor>round_double (q * 2 ^ n)\<rfloor> \<le> \<lfloor>(2::real) ^ n\<rfloor>"
    using p by (intro floor_mono) simp
  moreover have "\<lfloor>(2::real) ^ n\<rfloor> = 2 ^ n"
    by (metis floor_of_int of_int_numeral of_int_power)
  ultimately show "0 \<le> \<lfloor>round_double (q * 2 ^ n)\<rfloor> \<and> \<lfloor>round_double (q * 2 ^ n)\<rfloor> \<le> 2 ^ n"
    using p by simp
qed

lemma coord2int_pow:
  assumes "- 180 \<le> lng" "lng \<le> 180" "- 90 \<le> lat" "lat \<le> 90" "n \<le> 1023"
  shows "coord2int (Finite lng) (Finite lat) (2 ^ n) =
     Inr (\<lfloor>round_double (round_double (round_double (lng + 180) / 360) * 2 ^ n)\<rfloor>,
          \<lfloor>round_double (round_double (round_double (lat + 90) / 180) * 2 ^ n)\<rfloor>)"
proof -
  have dx: "float_div (float_add (Finite lng) (Finite 180)) (Finite 360) =
      Inr (Finite (round_double (round_double (lng + 180) / 360)))"
    using coord2int_axis(1) [OF assms(1,2), of 0] by simp
  have dy: "float_div (float_add (Finite lat) (Finite 90)) (Finite 180) =
      Inr (Finite (round_double (round_double (lat + 90) / 180)))"
    using coord2int_axis(1) [OF assms(3,4), of 0] by simp
  have mx: "float_mul (Finite (round_double (round_double (lng + 180) / 360))) (Finite (2 ^ n)) =
      Finite (round_double (round_double (round_double (lng + 180) / 360) * 2 ^ n))"
    using coord2int_axis(2) [OF assms(1,2) _ assms(5)] by simp
  have my: "float_mul (Finite (round_double (round_double (lat + 90) / 180))) (Finite (2 ^ n)) =
      Finite (round_double (round_double (round_double (lat + 90) / 180) * 2 ^ n))"
    using coord2int_axis(2) [OF assms(3,4) _ assms(5)] by simp
  have d: "(1::int) \<le> 2 ^ n" by simp
  show ?thesis
    unfolding coord2int_def LAT_INTERVAL_def LNG_INTERVAL_def snd_conv dx dy
      int_to_float_pow [OF assms(5)] and_then_Inr Let_def mx my math_floor.simps
    using d by simp
qed

lemma coord2int_pow_range:
  assumes "- 180 \<le> lng" "lng \<le> 180" "- 90 \<le> lat" "lat \<le> 90" "n \<le> 1023"
  shows "\<exists>x y. coord2int (Finite lng) (Finite lat) (2 ^ n) = Inr (x, y) \<and>
           0 \<le> x \<and> x \<le> 2 ^ n \<and> 0 \<le> y \<and> y \<le> 2 ^ n"
  using coord2int_pow [OF assms] coord2int_axis(3) [OF assms(1,2) _ assms(5)]
    coord2int_axis(3) [OF assms(3,4) _ assms(5)]
  by simp

lemma coord2int_below_180: "coord2int (Finite (180 - 1 / 2 ^ 45)) (Finite 0) 2 = Inr (2, 1)"
proof -
  have a: "- 180 \<le> (180 - 1 / 2 ^ 45 :: real)" "(180 - 1 / 2 ^ 45 :: real) \<le> 180" by simp_all
  have s: "(180 - 1 / 2 ^ 45 + 180 :: real) = 360 - 1 / 2 ^ 45" by simp
  have "coord2int (Finite (180 - 1 / 2 ^ 45)) (Finite 0) (2 ^ 1) =
     Inr (\<lfloor>round_double (round_double (round_double (180 - 1 / 2 ^ 45 + 180) / 360) * 2 ^ 1)\<rfloor>,
          \<lfloor>round_double (round_double (round_double (0 + 90) / 180) * 2 ^ 1)\<rfloor>)"
    by (rule coord2int_pow [OF a]) simp_all
  then show ?thesis
    unfolding s round_double_tie_360 by simp
qed

lemma coord2int_180: "coord2int (Finite 180) (Finite 0) 2 = Inr (2, 1)"
  using coord2int_pow [of 180 0 1] by simp

lemma coord2int_overflow: "coord2int (Finite 0) (Finite 0) (2 ^ 1024) = Inl OverflowError"
proof -
  have d: "float_div (float_add (Finite 0) (Finite 90)) (Finite 180) = Inr (Finite (1 / 2))"
    by (simp add: to_double_small)
  have g: "\<not> \<not> (2::int) ^ 1024 \<ge> 1" by simp
  show ?thesis
    unfolding coord2int_def LAT_INTERVAL_def LNG_INTERVAL_def snd_conv d and_then_Inr
      int_to_float_overflow and_then_Inl
    by (simp only: g if_False)
qed

section \<open>Properties of the facade\<close>

lemma encode_invalid:
  "\<not> (float_le (Finite (- 180)) lng \<and> float_le lng (Finite 180) \<and>
      float_le (Finite (- 90)) lat \<and> float_le lat (Finite 90) \<and> 0 \<le> precision \<and>
      bits_per_char \<in> {2, 4, 6}) \<Longrightarrow>
   encode enc lng lat precision bits_per_char = Inl AssertionError"
  by (auto simp: encode_def LAT_INTERVAL_def LNG_INTERVAL_def)

lemma encode_valid:
  assumes "- 180 \<le> lng" "lng \<le> 180" "- 90 \<le> lat" "lat \<le> 90" "0 \<le> precision"
    "bits_per_char \<in> {2, 4, 6}"
  shows "encode enc (Finite lng) (Finite lat) precision bits_per_char =
     (let dm = push_bit (nat (drop_bit 1 (precision * bits_per_char))) 1
      in and_then (coord2int (Finite lng) (Finite lat) dm) (\<lambda>(x, y).
           Inr (rjust (enc (xy2hash x y dm) bits_per_char) precision CHR ''0'')))"
proof -
  have b: "bits_per_char \<in> {2, 4, 6}" by (rule assms(6))
  show ?thesis
    unfolding encode_def using assms(1-5) b
    by (simp only: LAT_INTERVAL_def LNG_INTERVAL_def fst_conv snd_conv float_le.simps) simp
qed

lemma double_below_minus_180: "\<exists>r. to_double (- 1801 / 10) = Finite r \<and> r < - 180"
proof -
  have "round_double (- 1801 / 10) \<le> round_double (- 2881 / 16)"
    by (rule round_double_mono) simp
  moreover have "round_double (- 2881 / 16) = - 2881 / 16"
    using round_double_scaled [of "- 2881" 4 0] by simp
  moreover have "round_double (- 360) \<le> round_double (- 1801 / 10)"
    by (rule round_double_mono) simp
  moreover have "round_double (- 360) = - 360"
    using round_double_int [of "- 360"] by simp
  ultimately have "round_double (- 1801 / 10) < - 180" "\<bar>round_double (- 1801 / 10)\<bar> \<le> 360"
    by linarith+
  then show ?thesis by (simp add: to_double_small)
qed

lemma double_above_90: "\<exists>r. to_double (901 / 10) = Finite r \<and> 90 < r"
proof -
  have "round_double (1441 / 16) \<le> round_double (901 / 10)"
    by (rule round_double_mono) simp
  moreover have "round_double (1441 / 16) = 1441 / 16"
    using round_double_scaled [of 1441 4 0] by simp
  moreover have "round_double (901 / 10) \<le> round_double 360"
    by (rule round_double_mono) simp
  ultimately have "90 < round_double (901 / 10)" "\<bar>round_double (901 / 10)\<bar> \<le> 360"
    by simp_all
  then show ?thesis by (simp add: to_double_small)
qed

section \<open>Properties of the decoder\<close>

lemma float_add_coord:
  assumes "- w \<le> a \<and> a \<le> w" "0 \<le> b \<and> b \<le> w" "w \<le> 180"
  shows "float_add (Finite a) (Finite b) = Finite (round_double (a + b))"
proof -
  have "round_double (- 360) = - 360" using round_double_int [of "- 360"] by simp
  then have "to_double (a + b) = Finite (round_double (a + b))"
    using assms by (intro to_double_between [of "- 360" 360]) simp_all
  then show ?thesis by simp
qed

lemma decode_exactly_pow:
  assumes b: "bits_per_char \<in> {2, 4, 6}"
    and lv: "level = drop_bit 1 (int (length code) * bits_per_char)"
    and h: "dec code bits_per_char \<le> 2 ^ nat level * 2 ^ nat level - 1"
  defines "x \<equiv> fst (hash2xy_iter (nat level) (dec code bits_per_char))"
    and "y \<equiv> snd (hash2xy_iter (nat level) (dec code bits_per_char))"
  defines "lng \<equiv> round_double (round_double (round_double (real_of_int x / 2 ^ nat level) * 360) - 180)"
    and "lat \<equiv> round_double (round_double (round_double (real_of_int y / 2 ^ nat level) * 180) - 90)"
    and "lng_err \<equiv> round_double (180 * round_double (1 / 2 ^ nat level))"
    and "lat_err \<equiv> round_double (90 * round_double (1 / 2 ^ nat level))"
  shows "hash2xy (dec code bits_per_char) (2 ^ nat level) = Some (Inr (x, y))"
    and "0 \<le> x \<and> x < 2 ^ nat level \<and> 0 \<le> y \<and> y < 2 ^ nat level"
    and "int2coord x y (2 ^ nat level) = Inr (Finite lng, Finite lat)"
    and "dim_error level = Inr (Finite lng_err, Finite lat_err)"
    and "decode_exactly dec code bits_per_char =
           Some (Inr (Finite (round_double (lng + lng_err)), Finite (round_double (lat + lat_err)),
                      Finite lng_err, Finite lat_err))"
    and "decode dec code bits_per_char =
           Some (Inr (Finite (round_double (lng + lng_err)), Finite (round_double (lat + lat_err))))"
proof -
  let ?n = "nat level"
  have l0: "0 \<le> level" using even_bits_per_char(2) [OF b] lv by simp
  have p: "push_bit ?n (1::int) = 2 ^ ?n" by (simp add: push_bit_eq_mult)
  show hx: "hash2xy (dec code bits_per_char) (2 ^ ?n) = Some (Inr (x, y))"
    using hash2xy_pow_accepts [OF h] by (simp add: x_def y_def)
  show r: "0 \<le> x \<and> x < 2 ^ ?n \<and> 0 \<le> y \<and> y < 2 ^ ?n"
    unfolding x_def y_def by (rule hash2xy_iter_range)
  have r': "0 \<le> x" "x < 2 ^ ?n" "0 \<le> y" "y < 2 ^ ?n" using r by simp_all
  show ic: "int2coord x y (2 ^ ?n) = Inr (Finite lng, Finite lat)"
    using int2coord_grid [OF r'] by (simp add: lng_def lat_def)
  show de: "dim_error level = Inr (Finite lng_err, Finite lat_err)"
    unfolding lng_err_def lat_err_def by (rule dim_error_finite(1) [OF l0])
  have rx: "- 180 \<le> lng \<and> lng \<le> 180"
    using int2coord_axis(3) [OF r'(1,2), of 180] by (simp add: lng_def)
  have ry: "- 90 \<le> lat \<and> lat \<le> 90"
    using int2coord_axis(3) [OF r'(3,4), of 90] by (simp add: lat_def)
  have ax: "float_add (Finite lng) (Finite lng_err) = Finite (round_double (lng + lng_err))"
    using rx dim_error_finite(2) [OF l0] unfolding lng_err_def
    by (intro float_add_coord [of 180]) simp_all
  have ay: "float_add (Finite lat) (Finite lat_err) = Finite (round_double (lat + lat_err))"
    using ry dim_error_finite(3) [OF l0] unfolding lat_err_def
    by (intro float_add_coord [of 90]) simp_all
  have "decode_exactly dec code bits_per_char =
      (case hash2xy (dec code bits_per_char) (2 ^ ?n) of
         None \<Rightarrow> None
       | Some (Inl e) \<Rightarrow> Some (Inl e)
       | Some (Inr (x, y)) \<Rightarrow>
           Some (and_then (int2coord x y (2 ^ ?n)) (\<lambda>(lng, lat).
                 and_then (dim_error level) (\<lambda>(lng_err, lat_err).
                 Inr (float_add lng lng_err, float_add lat lat_err, lng_err, lat_err)))))"
    unfolding decode_exactly_def Let_def lv [symmetric] p using b
    by (simp only: not_True_eq_False not_not if_False)
  then show dx: "decode_exactly dec code bits_per_char =
      Some (Inr (Finite (round_double (lng + lng_err)), Finite (round_double (lat + lat_err)),
                 Finite lng_err, Finite lat_err))"
    by (simp only: hx ic de and_then_Inr option.case sum.case prod.case ax ay)
  show "decode dec code bits_per_char =
      Some (Inr (Finite (round_double (lng + lng_err)), Finite (round_double (lat + lat_err))))"
    unfolding decode_def dx using b by simp
qed

lemma decode_exactly_low:
  assumes b: "bits_per_char \<in> {2, 4, 6}"
    and lv: "level = drop_bit 1 (int (length code) * bits_per_char)"
    and h: "dec code bits_per_char \<le> 2 ^ nat level * 2 ^ nat level - 1"
    and l: "level \<le> 47"
  defines "x \<equiv> fst (hash2xy_iter (nat level) (dec code bits_per_char))"
    and "y \<equiv> snd (hash2xy_iter (nat level) (dec code bits_per_char))"
  shows "int2coord x y (2 ^ nat level) =
           Inr (Finite (real_of_int x / 2 ^ nat level * 360 - 180),
                Finite (real_of_int y / 2 ^ nat level * 180 - 90))"
    and "dim_error level = Inr (Finite (180 * (1 / 2 ^ nat level)), Finite (90 * (1 / 2 ^ nat level)))"
    and "decode_exactly dec code bits_per_char =
           Some (Inr (Finite ((real_of_int x + 1 / 2) / 2 ^ nat level * 360 - 180),
                      Finite ((real_of_int y + 1 / 2) / 2 ^ nat level * 180 - 90),
                      Finite (180 * (1 / 2 ^ nat level)), Finite (90 * (1 / 2 ^ nat level))))"
    and "decode dec code bits_per_char =
           Some (Inr (Finite ((real_of_int x + 1 / 2) / 2 ^ nat level * 360 - 180),
                      Finite ((real_of_int y + 1 / 2) / 2 ^ nat level * 180 - 90)))"
proof -
  let ?n = "nat level"
  have l0: "0 \<le> level" using even_bits_per_char(2) [OF b] lv by simp
  have n: "?n \<le> 47" using l by simp
  note g = decode_exactly_pow [where dec = dec and code = code and level = level, OF b lv h,
      folded x_def y_def]
  have r: "0 \<le> x" "x < 2 ^ ?n" "0 \<le> y" "y < 2 ^ ?n" using g(2) by simp_all
  note ex = lng_exact [OF r(1,2) n]
  note ey = lat_exact [OF r(3,4) n]
  have u: "round_double (1 / 2 ^ ?n) = 1 / 2 ^ ?n"
    using round_double_scaled [of 1 ?n 0] n by simp
  have a: "round_double (180 * (1 / 2 ^ ?n)) = 180 * (1 / 2 ^ ?n)"
    using round_double_scaled [of 45 ?n 2] n by simp
  have c: "round_double (90 * (1 / 2 ^ ?n)) = 90 * (1 / 2 ^ ?n)"
    using round_double_scaled [of 45 ?n 1] n by simp
  show "int2coord x y (2 ^ ?n) =
      Inr (Finite (real_of_int x / 2 ^ ?n * 360 - 180), Finite (real_of_int y / 2 ^ ?n * 180 - 90))"
    using g(3) unfolding ex(1,2,3) ey(1,2,3) .
  show "dim_error level = Inr (Finite (180 * (1 / 2 ^ ?n)), Finite (90 * (1 / 2 ^ ?n)))"
    using g(4) unfolding u a c .
  show "decode_exactly dec code bits_per_char =
      Some (Inr (Finite ((real_of_int x + 1 / 2) / 2 ^ ?n * 360 - 180),
                 Finite ((real_of_int y + 1 / 2) / 2 ^ ?n * 180 - 90),
                 Finite (180 * (1 / 2 ^ ?n)), Finite (90 * (1 / 2 ^ ?n))))"
    using g(5) unfolding ex(1,2,3) ey(1,2,3) u a c ex(4) ey(4) .
  show "decode dec code bits_per_char =
      Some (Inr (Finite ((real_of_int x + 1 / 2) / 2 ^ ?n * 360 - 180),
                 Finite ((real_of_int y + 1 / 2) / 2 ^ ?n * 180 - 90)))"
    using g(6) unfolding ex(1,2,3) ey(1,2,3) u a c ex(4) ey(4) .
qed

lemma decode_int_zeros: "decode_int ''0123'' (replicate k CHR ''0'') b = 0"
  using decode_int_zero_prefix [of "''0123''" "CHR ''0''" k "[]" b]
  by (simp add: decode_int_Nil)

lemma decode_exactly_zeros:
  assumes "n \<le> 1074"
  shows "decode_exactly (decode_int ''0123'') (replicate n CHR ''0'') 2 =
     Some (Inr (Finite (round_double (- 180 + 180 * (1 / 2 ^ n))),
                Finite (round_double (- 90 + 90 * (1 / 2 ^ n))),
                Finite (180 * (1 / 2 ^ n)), Finite (90 * (1 / 2 ^ n))))"
proof -
  have b: "(2::int) \<in> {2, 4, 6}" by simp
  have lv: "int n = drop_bit 1 (int (length (replicate n CHR ''0'')) * 2)"
    by (simp add: drop_bit_eq_div)
  have h: "decode_int ''0123'' (replicate n CHR ''0'') 2 \<le> 2 ^ nat (int n) * 2 ^ nat (int n) - 1"
    unfolding decode_int_zeros by simp
  have u: "round_double (1 / 2 ^ n) = 1 / 2 ^ n"
    using round_double_scaled [of 1 n 0] assms by simp
  have a: "round_double (180 * (1 / 2 ^ n)) = 180 * (1 / 2 ^ n)"
    using round_double_scaled [of 45 n 2] assms by simp
  have c: "round_double (90 * (1 / 2 ^ n)) = 90 * (1 / 2 ^ n)"
    using round_double_scaled [of 45 n 1] assms by simp
  have z: "round_double (round_double (round_double (real_of_int 0 / 2 ^ n) * 360) - 180) = - 180"
    "round_double (round_double (round_double (real_of_int 0 / 2 ^ n) * 180) - 90) = - 90"
    by simp_all
  show ?thesis
    using decode_exactly_pow(5) [where dec = "decode_int ''0123''" and code = "replicate n CHR ''0''"
        and level = "int n", OF b lv h]
    unfolding decode_int_zeros hash2xy_iter_zero fst_conv snd_conv nat_int z u a c .
qed

lemma decode_exactly_54:
  "decode_exactly (decode_int ''0123'') (replicate 54 CHR ''0'') 2 =
     Some (Inr (Finite (- 180), Finite (- 90), Finite (180 * (1 / 2 ^ 54)), Finite (90 * (1 / 2 ^ 54))))"
  using decode_exactly_zeros [of 54]
  unfolding round_double_corner_180 round_double_corner_90 by simp

lemma decode_exactly_48:
  "decode_exactly (decode_int ''0123'') (replicate 48 CHR ''0'') 2 =
     Some (Inr (Finite (- 180 + 22 / 2 ^ 45), Finite (- 90 + 22 / 2 ^ 46),
                Finite (180 * (1 / 2 ^ 48)), Finite (90 * (1 / 2 ^ 48))))"
  using decode_exactly_zeros [of 48]
  unfolding round_double_tie_180 round_double_tie_90 by simp

section \<open>Claims\<close>

text \<open>
  C1. For every \<open>dim\<close> that is a power of two and every grid cell \<open>(x, y)\<close> with
  \<open>0 \<le> x < dim\<close> and \<open>0 \<le> y < dim\<close>, decoding the encoded curve index returns the
  original cell: \<open>_hash2xy(_xy2hash(x, y, dim), dim) == (x, y)\<close>. The assertion of
  \<open>_hash2xy\<close> holds and its loop returns.
\<close>

theorem hilbert_decode_encode:
  assumes "dm = 2 ^ n" and "0 \<le> x" "x < dm" and "0 \<le> y" "y < dm"
  shows "hash2xy (xy2hash x y dm) dm = Some (Inr (x, y))"
  using assms hash2xy_xy2hash_pow [of x n y] by simp

theorem hilbert_decode_encode_witness:
  "(4::int) = 2 ^ 2 \<and> (0::int) \<le> 3 \<and> (3::int) < 4 \<and> (0::int) \<le> 1 \<and> (1::int) < 4 \<and>
   hash2xy (xy2hash 3 1 4) 4 = Some (Inr (3, 1))"
  using hilbert_decode_encode [of 4 2 3 1] by simp

text \<open>
  C2. For every \<open>dim\<close> that is a power of two and every index in \<open>[0, dim\<^sup>2)\<close>,
  \<open>_hash2xy(index, dim)\<close> returns a cell of the grid, and \<open>_xy2hash\<close> of that cell
  is the index again; so \<open>_xy2hash\<close> is a bijection between the cells of the grid and
  \<open>[0, dim\<^sup>2)\<close>.
\<close>

theorem hilbert_encode_decode:
  assumes "dm = 2 ^ n" and "0 \<le> index" "index < dm * dm"
  shows "(\<exists>x y. hash2xy index dm = Some (Inr (x, y)) \<and> 0 \<le> x \<and> x < dm \<and> 0 \<le> y \<and> y < dm \<and>
            xy2hash x y dm = index) \<and>
         bij_betw (\<lambda>(x, y). xy2hash x y dm) ({0..<dm} \<times> {0..<dm}) {0..<dm * dm}"
proof
  let ?x = "fst (hash2xy_iter n index)" and ?y = "snd (hash2xy_iter n index)"
  have h: "0 \<le> index" "index < 2 ^ n * 2 ^ n" using assms by simp_all
  have "hash2xy index dm = Some (Inr (?x, ?y))"
    using xy2hash_hash2xy_pow(1) [OF h] assms(1) by simp
  moreover have "0 \<le> ?x \<and> ?x < dm \<and> 0 \<le> ?y \<and> ?y < dm"
    using hash2xy_iter_range [of n index] assms(1) by simp
  moreover have "xy2hash ?x ?y dm = index"
    using xy2hash_hash2xy_pow(2) [OF h] assms(1) by simp
  ultimately show "\<exists>x y. hash2xy index dm = Some (Inr (x, y)) \<and> 0 \<le> x \<and> x < dm \<and> 0 \<le> y \<and> y < dm \<and>
           xy2hash x y dm = index"
    by blast
  show "bij_betw (\<lambda>(x, y). xy2hash x y dm) ({0..<dm} \<times> {0..<dm}) {0..<dm * dm}"
    unfolding bij_betw_def
  proof
    show "inj_on (\<lambda>(x, y). xy2hash x y dm) ({0..<dm} \<times> {0..<dm})"
    proof (rule inj_onI)
      fix p q assume p: "p \<in> {0..<dm} \<times> {0..<dm}" and q: "q \<in> {0..<dm} \<times> {0..<dm}"
        and e: "(case p of (x, y) \<Rightarrow> xy2hash x y dm) = (case q of (x, y) \<Rightarrow> xy2hash x y dm)"
      obtain a b where pa: "p = (a, b)" by (cases p)
      obtain c d where qc: "q = (c, d)" by (cases q)
      have ab: "hash2xy (xy2hash a b (2 ^ n)) (2 ^ n) = Some (Inr (a, b))"
        using p pa assms(1) by (intro hash2xy_xy2hash_pow) simp_all
      have cd: "hash2xy (xy2hash c d (2 ^ n)) (2 ^ n) = Some (Inr (c, d))"
        using q qc assms(1) by (intro hash2xy_xy2hash_pow) simp_all
      have "xy2hash a b (2 ^ n) = xy2hash c d (2 ^ n)"
        using e pa qc assms(1) by simp
      then have "Some (Inr (a, b) :: error + int \<times> int) = Some (Inr (c, d))"
        using ab cd by (simp only:)
      then show "p = q" by (simp add: pa qc)
    qed
    show "(\<lambda>(x, y). xy2hash x y dm) ` ({0..<dm} \<times> {0..<dm}) = {0..<dm * dm}"
    proof (intro equalityI subsetI)
      fix h assume "h \<in> (\<lambda>(x, y). xy2hash x y dm) ` ({0..<dm} \<times> {0..<dm})"
      then obtain a b where "h = xy2hash a b dm" by (elim imageE) (simp add: case_prod_beta)
      then show "h \<in> {0..<dm * dm}"
        using xy2hash_pow_range [of a b n] assms(1) by simp
    next
      fix h assume "h \<in> {0..<dm * dm}"
      then have hh: "0 \<le> h" "h < 2 ^ n * 2 ^ n" using assms(1) by simp_all
      have m: "(fst (hash2xy_iter n h), snd (hash2xy_iter n h)) \<in> {0..<dm} \<times> {0..<dm}"
        using hash2xy_iter_range [of n h] assms(1) by (simp add: mem_Times_iff)
      have v: "h = (\<lambda>(x, y). xy2hash x y dm) (fst (hash2xy_iter n h), snd (hash2xy_iter n h))"
        using xy2hash_hash2xy_pow(2) [OF hh] assms(1) by (simp add: case_prod_beta)
      show "h \<in> (\<lambda>(x, y). xy2hash x y dm) ` ({0..<dm} \<times> {0..<dm})"
        by (rule image_eqI [where x = "(fst (hash2xy_iter n h), snd (hash2xy_iter n h))"]) (rule v, rule m)
    qed
  qed
qed


theorem hilbert_encode_decode_witness:
  "(4::int) = 2 ^ 2 \<and> (0::int) \<le> 13 \<and> (13::int) < 4 * 4 \<and>
   (\<exists>x y. hash2xy 13 4 = Some (Inr (x, y)) \<and> 0 \<le> x \<and> x < 4 \<and> 0 \<le> y \<and> y < 4 \<and>
      xy2hash x y 4 = 13) \<and>
   bij_betw (\<lambda>(x, y). xy2hash x y 4) ({0..<4} \<times> {0..<4}) {0..<4 * 4}"
  using hilbert_encode_decode [of 4 2 13] by simp


text \<open>
  C9. The forward transform is total on all integer inputs, also when \<open>x \<ge> dim\<close> or
  \<open>y \<ge> dim\<close> and when \<open>dim\<close> is not a power of two: \<open>xy2hash\<close> is a total
  function that raises nothing, its result is not negative and is at most the sum of
  \<open>3 * lvl\<^sup>2\<close> over the levels \<open>dim >> 1, dim >> 2, ..., 1\<close>. For \<open>dim \<ge> 1\<close> that sum is
  at most \<open>dim\<^sup>2 - 1\<close>, so the result is less than \<open>dim\<^sup>2\<close>; for a power of two the sum
  is \<open>dim\<^sup>2 - 1\<close>.
\<close>

theorem xy2hash_total_bounded:
  "0 \<le> xy2hash x y dm \<and> xy2hash x y dm \<le> level_sum (drop_bit 1 dm) \<and>
   (1 \<le> dm \<longrightarrow> level_sum (drop_bit 1 dm) \<le> dm * dm - 1 \<and> xy2hash x y dm < dm * dm) \<and>
   (dm = 2 ^ n \<longrightarrow> level_sum (drop_bit 1 dm) = dm * dm - 1)"
  using xy2hash_loop_bounds [of 0 "drop_bit 1 dm" x y] level_sum_half [of dm]
    level_sum_half_pow [of n]
  by (auto simp: xy2hash_def)

theorem xy2hash_total_bounded_witness:
  "(1::int) \<le> 4 \<and> (4::int) = 2 ^ 2 \<and> 0 \<le> xy2hash 5 9 4 \<and> xy2hash 5 9 4 < 4 * 4 \<and>
   xy2hash 5 9 4 \<le> level_sum (drop_bit 1 4) \<and> level_sum (drop_bit 1 4) = 4 * 4 - 1"
  using xy2hash_total_bounded [of 5 9 4 2] by simp

text \<open>
  C6. The forward transform does not validate its arguments: \<open>_xy2hash(2, 0, 2)\<close> and
  \<open>_xy2hash(0, 5, 2)\<close>, with \<open>x \<ge> dim\<close> and \<open>y \<ge> dim\<close>, return an index, while the
  inverse transform raises on the index \<open>4 = dim\<^sup>2\<close>.
\<close>

theorem xy2hash_unchecked: "xy2hash 2 0 2 = 0 \<and> xy2hash 0 5 2 = 1 \<and> hash2xy 4 2 = Some (Inl AssertionError)"
  by (simp add: xy2hash_def hash2xy_def xy2hash_loop_pos xy2hash_loop_nonpos quadrant_bit_def rotate_xy_eq drop_bit_eq_div)


text \<open>
  C7, as the code has it. \<open>encode\<close> fails with \<open>AssertionError\<close> whenever \<open>lng\<close> is outside
  \<open>[-180, 180]\<close> or \<open>lat\<close> is outside \<open>[-90, 90]\<close> (a NaN is outside both) or
  \<open>precision < 0\<close> or \<open>bits_per_char\<close> is not 2, 4 or 6. No result is returned then, and
  the failure does not depend on the codec: the checks come before any computation.
\<close>

theorem encode_validation:
  "\<not> (float_le (Finite (- 180)) lng \<and> float_le lng (Finite 180) \<and>
      float_le (Finite (- 90)) lat \<and> float_le lat (Finite 90) \<and> 0 \<le> precision \<and>
      bits_per_char \<in> {2, 4, 6}) \<Longrightarrow>
   encode enc lng lat precision bits_per_char = Inl AssertionError"
  by (rule encode_invalid)

theorem encode_validation_witness:
  "\<not> (float_le (Finite (- 180)) (to_double (- 1801 / 10)) \<and>
      float_le (to_double (- 1801 / 10)) (Finite 180) \<and>
      float_le (Finite (- 90)) (Finite 0) \<and> float_le (Finite 0) (Finite 90) \<and>
      (0::int) \<le> 10 \<and> (6::int) \<in> {2, 4, 6}) \<and>
   encode (encode_int ''0123'') (to_double (- 1801 / 10)) (Finite 0) 10 6 = Inl AssertionError"
proof -
  obtain r where r: "to_double (- 1801 / 10) = Finite r" "r < - 180"
    using double_below_minus_180 by blast
  have n: "\<not> (float_le (Finite (- 180)) (to_double (- 1801 / 10)) \<and>
      float_le (to_double (- 1801 / 10)) (Finite 180) \<and>
      float_le (Finite (- 90)) (Finite 0) \<and> float_le (Finite 0) (Finite 90) \<and>
      (0::int) \<le> 10 \<and> (6::int) \<in> {2, 4, 6})"
    using r by simp
  show ?thesis
    by (rule conjI [OF n encode_validation [OF n]])
qed

text \<open>
  C7, as the spec has it, fails: \<open>encode(-180.1, 0.0, 10, 6)\<close>, \<open>encode(0.0, 90.1, 10, 6)\<close>
  and \<open>encode(0.0, 0.0, 5, 5)\<close> all fail with the same error, \<open>AssertionError\<close>, so a
  range error and an invalid argument are not distinguishable by their kind. The
  literals \<open>-180.1\<close> and \<open>90.1\<close> are the doubles nearest to these decimals.
\<close>

theorem encode_errors_same_kind:
  "encode (encode_int ''0123'') (to_double (- 1801 / 10)) (Finite 0) 10 6 = Inl AssertionError \<and>
   encode (encode_int ''0123'') (Finite 0) (to_double (901 / 10)) 10 6 = Inl AssertionError \<and>
   encode (encode_int ''0123'') (Finite 0) (Finite 0) 5 5 = Inl AssertionError \<and>
   encode (encode_int ''0123'') (to_double (- 1801 / 10)) (Finite 0) 10 6 =
     encode (encode_int ''0123'') (Finite 0) (Finite 0) 5 5"
proof -
  obtain r where r: "to_double (- 1801 / 10) = Finite r" "r < - 180"
    using double_below_minus_180 by blast
  obtain s where s: "to_double (901 / 10) = Finite s" "90 < s"
    using double_above_90 by blast
  have a: "encode (encode_int ''0123'') (to_double (- 1801 / 10)) (Finite 0) 10 6 = Inl AssertionError"
    using r by (intro encode_invalid) simp
  have b: "encode (encode_int ''0123'') (Finite 0) (to_double (901 / 10)) 10 6 = Inl AssertionError"
    using s by (intro encode_invalid) simp
  have c: "encode (encode_int ''0123'') (Finite 0) (Finite 0) 5 5 = Inl AssertionError"
    by (intro encode_invalid) simp
  show ?thesis
    unfolding a b c by simp
qed

text \<open>
  C4, as the code has it. For every code and \<open>bits_per_char\<close> in \<open>{2, 4, 6}\<close>, with
  \<open>level = floor(len(code) * bits_per_char / 2)\<close> and \<open>dim = 2^level\<close>, and a codec that
  decodes the code to an index below \<open>dim\<^sup>2 = 2^(len(code) * bits_per_char)\<close> (each character
  contributes \<open>bits_per_char\<close> bits): \<open>decode_exactly\<close> decodes the index to a cell
  \<open>(x, y)\<close> of the grid, no operation raises or overflows at any level, and the result is
  \<open>(lng + lng_err, lat + lat_err, lng_err, lat_err)\<close> with the sums rounded to a double,
  where \<open>(lng, lat)\<close> is the result of \<open>_int2coord\<close> and \<open>(lng_err, lat_err)\<close> the result of
  \<open>_dim_error\<close>; \<open>decode\<close> returns the first two components. Up to level 47 no
  operation rounds: \<open>lng = x / dim * 360 - 180\<close> and \<open>lat = y / dim * 180 - 90\<close> are the
  lower-left corner of the cell, the margins are \<open>180 / dim\<close> and \<open>90 / dim\<close>, and the
  reported position is exactly the centre of the cell.
\<close>

theorem decode_exactly_center:
  assumes "bits_per_char \<in> {2, 4, 6}"
    and "level = (int (length code) * bits_per_char) div 2"
    and "dm = 2 ^ nat level"
    and "dec code bits_per_char \<le> dm * dm - 1"
  shows "dm * dm = 2 ^ nat (int (length code) * bits_per_char) \<and>
    (\<exists>x y lng lat lng_err lat_err.
       hash2xy (dec code bits_per_char) dm = Some (Inr (x, y)) \<and>
       0 \<le> x \<and> x < dm \<and> 0 \<le> y \<and> y < dm \<and>
       int2coord x y dm = Inr (Finite lng, Finite lat) \<and>
       dim_error level = Inr (Finite lng_err, Finite lat_err) \<and>
       decode_exactly dec code bits_per_char =
         Some (Inr (Finite (round_double (lng + lng_err)), Finite (round_double (lat + lat_err)),
                    Finite lng_err, Finite lat_err)) \<and>
       decode dec code bits_per_char =
         Some (Inr (Finite (round_double (lng + lng_err)), Finite (round_double (lat + lat_err)))) \<and>
       (level \<le> 47 \<longrightarrow>
          lng = real_of_int x / real_of_int dm * 360 - 180 \<and>
          lat = real_of_int y / real_of_int dm * 180 - 90 \<and>
          lng_err = 180 * (1 / 2 ^ nat level) \<and>
          lat_err = 90 * (1 / 2 ^ nat level) \<and>
          round_double (lng + lng_err) = (real_of_int x + 1 / 2) / real_of_int dm * 360 - 180 \<and>
          round_double (lat + lat_err) = (real_of_int y + 1 / 2) / real_of_int dm * 180 - 90))"
proof
  let ?n = "nat level"
  let ?h = "dec code bits_per_char"
  let ?x = "fst (hash2xy_iter ?n ?h)" and ?y = "snd (hash2xy_iter ?n ?h)"
  let ?lng = "round_double (round_double (round_double (real_of_int ?x / 2 ^ ?n) * 360) - 180)"
  let ?lat = "round_double (round_double (round_double (real_of_int ?y / 2 ^ ?n) * 180) - 90)"
  let ?lng_err = "round_double (180 * round_double (1 / 2 ^ ?n))"
  let ?lat_err = "round_double (90 * round_double (1 / 2 ^ ?n))"
  have lv: "level = drop_bit 1 (int (length code) * bits_per_char)"
    using assms(2) by (simp add: drop_bit_eq_div)
  have two: "2 * level = int (length code) * bits_per_char" and l0: "0 \<le> level"
    using even_bits_per_char [OF assms(1), of "length code"] lv by simp_all
  have "nat (int (length code) * bits_per_char) = ?n + ?n"
    using two l0 by linarith
  then show "dm * dm = 2 ^ nat (int (length code) * bits_per_char)"
    using assms(3) by (simp add: power_add)
  have h: "?h \<le> 2 ^ ?n * 2 ^ ?n - 1" using assms(3,4) by simp
  have dmr: "real_of_int dm = 2 ^ ?n" using assms(3) by simp
  note g = decode_exactly_pow [where dec = dec and code = code and level = level, OF assms(1) lv h,
      folded assms(3)]
  have low: "level \<le> 47 \<longrightarrow>
      ?lng = real_of_int ?x / real_of_int dm * 360 - 180 \<and>
      ?lat = real_of_int ?y / real_of_int dm * 180 - 90 \<and>
      ?lng_err = 180 * (1 / 2 ^ ?n) \<and>
      ?lat_err = 90 * (1 / 2 ^ ?n) \<and>
      round_double (?lng + ?lng_err) = (real_of_int ?x + 1 / 2) / real_of_int dm * 360 - 180 \<and>
      round_double (?lat + ?lat_err) = (real_of_int ?y + 1 / 2) / real_of_int dm * 180 - 90"
  proof
    assume l: "level \<le> 47"
    then have n: "?n \<le> 47" by simp
    have r: "0 \<le> ?x" "?x < 2 ^ ?n" "0 \<le> ?y" "?y < 2 ^ ?n"
      using hash2xy_iter_range [of ?n ?h] by simp_all
    note ex = lng_exact [OF r(1,2) n]
    note ey = lat_exact [OF r(3,4) n]
    have u: "round_double (1 / 2 ^ ?n) = 1 / 2 ^ ?n"
      using round_double_scaled [of 1 ?n 0] n by simp
    have a: "round_double (180 * (1 / 2 ^ ?n)) = 180 * (1 / 2 ^ ?n)"
      using round_double_scaled [of 45 ?n 2] n by simp
    have c: "round_double (90 * (1 / 2 ^ ?n)) = 90 * (1 / 2 ^ ?n)"
      using round_double_scaled [of 45 ?n 1] n by simp
    show "?lng = real_of_int ?x / real_of_int dm * 360 - 180 \<and>
      ?lat = real_of_int ?y / real_of_int dm * 180 - 90 \<and>
      ?lng_err = 180 * (1 / 2 ^ ?n) \<and>
      ?lat_err = 90 * (1 / 2 ^ ?n) \<and>
      round_double (?lng + ?lng_err) = (real_of_int ?x + 1 / 2) / real_of_int dm * 360 - 180 \<and>
      round_double (?lat + ?lat_err) = (real_of_int ?y + 1 / 2) / real_of_int dm * 180 - 90"
      unfolding dmr ex(1,2,3) ey(1,2,3) u a c ex(4) ey(4) by simp
  qed
  show "\<exists>x y lng lat lng_err lat_err.
       hash2xy (dec code bits_per_char) dm = Some (Inr (x, y)) \<and>
       0 \<le> x \<and> x < dm \<and> 0 \<le> y \<and> y < dm \<and>
       int2coord x y dm = Inr (Finite lng, Finite lat) \<and>
       dim_error level = Inr (Finite lng_err, Finite lat_err) \<and>
       decode_exactly dec code bits_per_char =
         Some (Inr (Finite (round_double (lng + lng_err)), Finite (round_double (lat + lat_err)),
                    Finite lng_err, Finite lat_err)) \<and>
       decode dec code bits_per_char =
         Some (Inr (Finite (round_double (lng + lng_err)), Finite (round_double (lat + lat_err)))) \<and>
       (level \<le> 47 \<longrightarrow>
          lng = real_of_int x / real_of_int dm * 360 - 180 \<and>
          lat = real_of_int y / real_of_int dm * 180 - 90 \<and>
          lng_err = 180 * (1 / 2 ^ nat level) \<and>
          lat_err = 90 * (1 / 2 ^ nat level) \<and>
          round_double (lng + lng_err) = (real_of_int x + 1 / 2) / real_of_int dm * 360 - 180 \<and>
          round_double (lat + lat_err) = (real_of_int y + 1 / 2) / real_of_int dm * 180 - 90)"
    using g(2)
    by (intro exI [of _ ?x] exI [of _ ?y] exI [of _ ?lng] exI [of _ ?lat] exI [of _ ?lng_err]
        exI [of _ ?lat_err] conjI g(1) g(3) g(4) g(5) g(6) low) simp_all
qed

theorem decode_exactly_center_witness:
  "(2::int) \<in> {2, 4, 6} \<and> (2::int) = (int (length ''13'') * 2) div 2 \<and> (4::int) = 2 ^ nat 2 \<and>
   decode_int ''0123'' ''13'' 2 \<le> 4 * 4 - 1 \<and> (2::int) \<le> 47 \<and>
   hash2xy (decode_int ''0123'' ''13'' 2) 4 = Some (Inr (1, 2)) \<and>
   int2coord 1 2 4 = Inr (Finite (- 90), Finite 0) \<and>
   dim_error 2 = Inr (Finite 45, Finite (45 / 2)) \<and>
   decode_exactly (decode_int ''0123'') ''13'' 2 =
     Some (Inr (Finite (- 45), Finite (45 / 2), Finite 45, Finite (45 / 2))) \<and>
   decode (decode_int ''0123'') ''13'' 2 = Some (Inr (Finite (- 45), Finite (45 / 2)))"
proof -
  have a: "(2::int) \<in> {2, 4, 6}" by simp
  have b: "(2::int) = (int (length ''13'') * 2) div 2" by simp
  have c: "(4::int) = 2 ^ nat 2" by simp
  have d: "decode_int ''0123'' ''13'' 2 \<le> 4 * 4 - 1" by (simp add: decode_int_13)
  have l: "(2::int) \<le> 47" by simp
  have e: "hash2xy (decode_int ''0123'' ''13'' 2) 4 = Some (Inr (1, 2))"
    by (simp only: decode_int_13 hash2xy_7_4)
  note inst = decode_exactly_center [where dec = "decode_int ''0123''" and code = "''13''"
      and bits_per_char = 2 and level = 2 and dm = 4, OF a b c d, THEN conjunct2]
  then obtain x y lng lat lng_err lat_err
    where xy: "hash2xy (decode_int ''0123'' ''13'' 2) 4 = Some (Inr (x, y))"
    and ic: "int2coord x y 4 = Inr (Finite lng, Finite lat)"
    and de: "dim_error 2 = Inr (Finite lng_err, Finite lat_err)"
    and r: "decode_exactly (decode_int ''0123'') ''13'' 2 =
        Some (Inr (Finite (round_double (lng + lng_err)), Finite (round_double (lat + lat_err)),
                   Finite lng_err, Finite lat_err))"
    and s: "decode (decode_int ''0123'') ''13'' 2 =
        Some (Inr (Finite (round_double (lng + lng_err)), Finite (round_double (lat + lat_err))))"
    and low: "(2::int) \<le> 47 \<longrightarrow>
          lng = real_of_int x / real_of_int 4 * 360 - 180 \<and>
          lat = real_of_int y / real_of_int 4 * 180 - 90 \<and>
          lng_err = 180 * (1 / 2 ^ nat 2) \<and>
          lat_err = 90 * (1 / 2 ^ nat 2) \<and>
          round_double (lng + lng_err) = (real_of_int x + 1 / 2) / real_of_int 4 * 360 - 180 \<and>
          round_double (lat + lat_err) = (real_of_int y + 1 / 2) / real_of_int 4 * 180 - 90"
    by (elim exE conjE)
  have x: "x = 1" and y: "y = 2" using xy e by simp_all
  from mp [OF low l]
  have w1: "lng = real_of_int x / real_of_int 4 * 360 - 180"
    and w2: "lat = real_of_int y / real_of_int 4 * 180 - 90"
    and w3: "lng_err = 180 * (1 / 2 ^ nat 2)"
    and w4: "lat_err = 90 * (1 / 2 ^ nat 2)"
    and w5: "round_double (lng + lng_err) = (real_of_int x + 1 / 2) / real_of_int 4 * 360 - 180"
    and w6: "round_double (lat + lat_err) = (real_of_int y + 1 / 2) / real_of_int 4 * 180 - 90"
    by blast+
  have v: "lng = - 90" "lat = 0" "lng_err = 45" "lat_err = 45 / 2"
    "round_double (lng + lng_err) = - 45" "round_double (lat + lat_err) = 45 / 2"
    using w1 w2 w3 w4 w5 w6 unfolding x y by (simp_all only:) simp_all
  have ic': "int2coord 1 2 4 = Inr (Finite (- 90), Finite 0)"
    using ic unfolding x y v(1,2) .
  have de': "dim_error 2 = Inr (Finite 45, Finite (45 / 2))"
    using de unfolding v(3,4) .
  have r': "decode_exactly (decode_int ''0123'') ''13'' 2 =
      Some (Inr (Finite (- 45), Finite (45 / 2), Finite 45, Finite (45 / 2)))"
    using r [unfolded v(5,6), unfolded v(3,4)] .
  have s': "decode (decode_int ''0123'') ''13'' 2 = Some (Inr (Finite (- 45), Finite (45 / 2)))"
    using s unfolding v(5,6) .
  show ?thesis
    by (intro conjI a b c d l e ic' de' r' s')
qed

text \<open>
  C4, as the spec has it, fails from level 48 on. The code of 48 characters \<open>0\<close> at 2
  bits per character decodes to the cell \<open>(0, 0)\<close>, whose lower-left corner is
  \<open>(-180.0, -90.0)\<close>; the sums with the margins \<open>180 / 2^48\<close> and \<open>90 / 2^48\<close> fall
  halfway between two doubles and round to \<open>-180 + 22 / 2^45\<close> and \<open>-90 + 22 / 2^46\<close>,
  which is not the centre of the cell. With 54 characters the margins \<open>180 / 2^54\<close> and
  \<open>90 / 2^54\<close> are less than half the distance between \<open>-180.0\<close>, \<open>-90.0\<close> and the
  next doubles, so the sums round back, and \<open>decode_exactly\<close> reports the lower-left
  corner itself.
\<close>

theorem decode_exactly_corner:
  "decode_exactly (decode_int ''0123'') (replicate 48 CHR ''0'') 2 =
     Some (Inr (Finite (- 180 + 22 / 2 ^ 45), Finite (- 90 + 22 / 2 ^ 46),
                Finite (180 * (1 / 2 ^ 48)), Finite (90 * (1 / 2 ^ 48)))) \<and>
   (- 180 + 22 / 2 ^ 45 :: real) \<noteq> (real_of_int 0 + 1 / 2) / 2 ^ 48 * 360 - 180 \<and>
   (- 90 + 22 / 2 ^ 46 :: real) \<noteq> (real_of_int 0 + 1 / 2) / 2 ^ 48 * 180 - 90 \<and>
   hash2xy (decode_int ''0123'' (replicate 54 CHR ''0'') 2) (2 ^ 54) = Some (Inr (0, 0)) \<and>
   int2coord 0 0 (2 ^ 54) = Inr (Finite (- 180), Finite (- 90)) \<and>
   decode_exactly (decode_int ''0123'') (replicate 54 CHR ''0'') 2 =
     Some (Inr (Finite (- 180), Finite (- 90), Finite (180 * (1 / 2 ^ 54)), Finite (90 * (1 / 2 ^ 54)))) \<and>
   (- 180 :: real) \<noteq> (real_of_int 0 + 1 / 2) / 2 ^ 54 * 360 - 180 \<and>
   (- 90 :: real) \<noteq> (real_of_int 0 + 1 / 2) / 2 ^ 54 * 180 - 90"
proof (intro conjI)
  show "decode_exactly (decode_int ''0123'') (replicate 48 CHR ''0'') 2 =
     Some (Inr (Finite (- 180 + 22 / 2 ^ 45), Finite (- 90 + 22 / 2 ^ 46),
                Finite (180 * (1 / 2 ^ 48)), Finite (90 * (1 / 2 ^ 48))))"
    by (rule decode_exactly_48)
  show "(- 180 + 22 / 2 ^ 45 :: real) \<noteq> (real_of_int 0 + 1 / 2) / 2 ^ 48 * 360 - 180" by simp
  show "(- 90 + 22 / 2 ^ 46 :: real) \<noteq> (real_of_int 0 + 1 / 2) / 2 ^ 48 * 180 - 90" by simp
  have "hash2xy 0 (2 ^ 54) = Some (Inr (hash2xy_iter 54 0))"
    by (rule hash2xy_pow_accepts) simp
  then show "hash2xy (decode_int ''0123'' (replicate 54 CHR ''0'') 2) (2 ^ 54) = Some (Inr (0, 0))"
    by (simp only: decode_int_zeros hash2xy_iter_zero)
  show "int2coord 0 0 (2 ^ 54) = Inr (Finite (- 180), Finite (- 90))"
    using int2coord_grid [of 0 "2 ^ 54" 0] by simp
  show "decode_exactly (decode_int ''0123'') (replicate 54 CHR ''0'') 2 =
     Some (Inr (Finite (- 180), Finite (- 90), Finite (180 * (1 / 2 ^ 54)), Finite (90 * (1 / 2 ^ 54))))"
    by (rule decode_exactly_54)
  show "(- 180 :: real) \<noteq> (real_of_int 0 + 1 / 2) / 2 ^ 54 * 360 - 180" by simp
  show "(- 90 :: real) \<noteq> (real_of_int 0 + 1 / 2) / 2 ^ 54 * 180 - 90" by simp
qed

text \<open>
  C5 fails inside the open interval: \<open>179.99999999999997\<close>, the double \<open>180 - 2^-45\<close>,
  is less than 180, but \<open>lng + 180.0\<close> rounds to \<open>360.0\<close>, so
  \<open>_coord2int(179.99999999999997, 0.0, 2)\<close> returns \<open>x = 2 = dim\<close>, outside \<open>[0, dim)\<close>.
  And for the power of two \<open>dim = 2^1024\<close> the product \<open>float * dim\<close> raises
  \<open>OverflowError\<close>, so no cell is computed.
\<close>

theorem coord2int_reaches_dim:
  "round_double (180 - 1 / 2 ^ 45) = 180 - 1 / 2 ^ 45 \<and>
   - 180 < (180 - 1 / 2 ^ 45 :: real) \<and> (180 - 1 / 2 ^ 45 :: real) < 180 \<and>
   coord2int (Finite (180 - 1 / 2 ^ 45)) (Finite 0) 2 = Inr (2, 1) \<and>
   coord2int (Finite 0) (Finite 0) (2 ^ 1024) = Inl OverflowError"
proof (intro conjI)
  have "(180 - 1 / 2 ^ 45 :: real) = real_of_int (180 * 2 ^ 45 - 1) * 2 ^ 0 / 2 ^ 45"
    by simp
  moreover have "round_double (real_of_int (180 * 2 ^ 45 - 1) * 2 ^ 0 / 2 ^ 45) =
      real_of_int (180 * 2 ^ 45 - 1) * 2 ^ 0 / 2 ^ 45"
    by (rule round_double_scaled) simp_all
  ultimately show "round_double (180 - 1 / 2 ^ 45) = 180 - 1 / 2 ^ 45"
    by (simp only:)
  show "- 180 < (180 - 1 / 2 ^ 45 :: real)" by simp
  show "(180 - 1 / 2 ^ 45 :: real) < 180" by simp
  show "coord2int (Finite (180 - 1 / 2 ^ 45)) (Finite 0) 2 = Inr (2, 1)"
    by (rule coord2int_below_180)
  show "coord2int (Finite 0) (Finite 0) (2 ^ 1024) = Inl OverflowError"
    by (rule coord2int_overflow)
qed




text \<open>
  C10. At precision 0 there is one cell: for every valid coordinate and \<open>bits_per_char\<close>
  in \<open>{2, 4, 6}\<close>, \<open>encode(lng, lat, 0, bits_per_char)\<close> returns the empty string, and
  \<open>decode_exactly("", bits_per_char)\<close> returns \<open>(0.0, 0.0, 180.0, 90.0)\<close>. The codec is
  the one modelled from the spec, over any alphabet.
\<close>

theorem precision_zero:
  assumes "float_le (Finite (- 180)) lng" "float_le lng (Finite 180)"
    and "float_le (Finite (- 90)) lat" "float_le lat (Finite 90)"
    and "bits_per_char \<in> {2, 4, 6}"
  shows "encode (encode_int abc) lng lat 0 bits_per_char = Inr [] \<and>
         decode_exactly (decode_int abc) [] bits_per_char =
           Some (Inr (Finite 0, Finite 0, Finite 180, Finite 90)) \<and>
         decode (decode_int abc) [] bits_per_char = Some (Inr (Finite 0, Finite 0))"
proof (intro conjI)
  obtain a where a: "lng = Finite a" "- 180 \<le> a" "a \<le> 180"
    using float_le_FiniteD [OF assms(1,2)] by blast
  obtain c where c: "lat = Finite c" "- 90 \<le> c" "c \<le> 90"
    using float_le_FiniteD [OF assms(3,4)] by blast
  obtain x y where xy: "coord2int (Finite a) (Finite c) (2 ^ 0) = Inr (x, y)"
    using coord2int_pow_range [OF a(2,3) c(2,3), of 0] by auto
  show "encode (encode_int abc) lng lat 0 bits_per_char = Inr []"
    using encode_valid [where enc = "encode_int abc", OF a(2,3) c(2,3) order_refl assms(5)] xy
    by (simp add: a(1) c(1) xy2hash_dim_1 encode_int_nonpos rjust_Nil_0)
  have lv: "(0::int) = drop_bit 1 (int (length ([]::string)) * bits_per_char)" by simp
  have h: "decode_int abc [] bits_per_char \<le> 2 ^ nat 0 * 2 ^ nat 0 - 1"
    by (simp add: decode_int_Nil)
  show "decode_exactly (decode_int abc) [] bits_per_char =
      Some (Inr (Finite 0, Finite 0, Finite 180, Finite 90))"
    using decode_exactly_low(3) [where dec = "decode_int abc" and code = "[]" and level = 0,
        OF assms(5) lv h]
    by simp
  show "decode (decode_int abc) [] bits_per_char = Some (Inr (Finite 0, Finite 0))"
    using decode_exactly_low(4) [where dec = "decode_int abc" and code = "[]" and level = 0,
        OF assms(5) lv h]
    by simp
qed

theorem precision_zero_witness:
  "float_le (Finite (- 180)) (Finite 180) \<and> float_le (Finite 180) (Finite 180) \<and>
   float_le (Finite (- 90)) (Finite (- 90)) \<and> float_le (Finite (- 90)) (Finite 90) \<and>
   (4::int) \<in> {2, 4, 6} \<and>
   encode (encode_int ''0123456789abcdef'') (Finite 180) (Finite (- 90)) 0 4 = Inr [] \<and>
   decode_exactly (decode_int ''0123456789abcdef'') [] 4 =
     Some (Inr (Finite 0, Finite 0, Finite 180, Finite 90)) \<and>
   decode (decode_int ''0123456789abcdef'') [] 4 = Some (Inr (Finite 0, Finite 0))"
  using precision_zero [of "Finite 180" "Finite (- 90)" 4 "''0123456789abcdef''"] by simp

text \<open>
  C3 fails at the boundary: \<open>encode(180.0, 0.0, 1, 2)\<close> returns the code of the cell
  \<open>(0, 1)\<close>, which \<open>decode\<close> maps to \<open>(-90.0, 45.0)\<close>; the longitude is 270 degrees away
  from 180, and the error margin of the level is 90. No operation of this computation
  rounds.
\<close>

theorem roundtrip_fails_at_180:
  "encode (encode_int ''0123'') (Finite 180) (Finite 0) 1 2 = Inr ''1'' \<and>
   decode (decode_int ''0123'') ''1'' 2 = Some (Inr (Finite (- 90), Finite 45)) \<and>
   dim_error (drop_bit 1 (1 * 2)) = Inr (Finite 90, Finite 45) \<and>
   \<not> \<bar>180 - (- 90)\<bar> \<le> (90::real)"
proof (intro conjI)
  have "encode (encode_int ''0123'') (Finite 180) (Finite 0) 1 2 =
      and_then (coord2int (Finite 180) (Finite 0) 2) (\<lambda>(x, y).
        Inr (rjust (encode_int ''0123'' (xy2hash x y 2) 2) 1 CHR ''0''))"
    using encode_valid [where enc = "encode_int ''0123''" and lng = 180 and lat = 0
        and precision = 1 and bits_per_char = 2]
    by (simp add: Let_def drop_bit_eq_div push_bit_eq_mult)
  then show "encode (encode_int ''0123'') (Finite 180) (Finite 0) 1 2 = Inr ''1''"
    by (simp add: coord2int_180 xy2hash_2_1_2 encode_int_1 rjust_def)
  have b: "(2::int) \<in> {2, 4, 6}" by simp
  have lv: "(1::int) = drop_bit 1 (int (length ''1'') * 2)" by (simp add: drop_bit_eq_div)
  have h: "decode_int ''0123'' ''1'' 2 \<le> 2 ^ nat 1 * 2 ^ nat 1 - 1" by (simp add: decode_int_1)
  have i: "hash2xy_iter (nat 1) 1 = (0, 1)" by (simp add: rotate_xy_eq Let_def)
  note g = decode_exactly_low(4) [where dec = "decode_int ''0123''" and code = "''1''" and level = 1,
      OF b lv h, unfolded decode_int_1 i fst_conv snd_conv]
  show "decode (decode_int ''0123'') ''1'' 2 = Some (Inr (Finite (- 90), Finite 45))"
    using g by simp
  show "dim_error (drop_bit 1 (1 * 2)) = Inr (Finite 90, Finite 45)"
    using dim_error_low [of 1] by (simp add: drop_bit_eq_div)
  show "\<not> \<bar>180 - (- 90)\<bar> \<le> (90::real)" by simp
qed

end
